theory Spec2Isabelle
  imports Main "HOL-Library.AList" "HOL-Library.FSet"
begin

section \<open>Python values and exceptions\<close>

text \<open>
  The exceptions that the modelled code can raise. A function that may raise returns
  a sum: \<open>Inl\<close> carries the exception, \<open>Inr\<close> the normal result.
\<close>

datatype py_error = TypeError | AttributeError | KeyError | ValueError

text \<open>
  Python values as far as the code inspects them with \<open>isinstance\<close>. A set is
  carried as the list of its elements in iteration order, a dict as an association
  list in insertion order.
\<close>

datatype pyval =
    PNone
  | PBool bool
  | PInt int
  | PStr string
  | PTuple "pyval list"
  | PSet "pyval list"
  | PList "pyval list"
  | PDict "(pyval \<times> pyval) list"

section \<open>Database/DatabaseSetup.py\<close>

text \<open>
  \<open>value.items()\<close>: only a dict has the attribute; on a list (or any other value
  of the model) the attribute lookup raises AttributeError.
\<close>

definition items :: "pyval \<Rightarrow> py_error + (pyval \<times> pyval) list" where
  "items v = (case v of PDict kvs \<Rightarrow> Inr kvs | _ \<Rightarrow> Inl AttributeError)"

text \<open>\<open>value[key] = x\<close> on a dict; item assignment on a non-container raises TypeError.\<close>

definition setitem :: "pyval \<Rightarrow> pyval \<Rightarrow> pyval \<Rightarrow> py_error + pyval" where
  "setitem v k x = (case v of PDict kvs \<Rightarrow> Inr (PDict (AList.update k x kvs)) | _ \<Rightarrow> Inl TypeError)"

text \<open>\<open>xs.append(x)\<close>: only a list has the attribute.\<close>

definition append :: "pyval \<Rightarrow> pyval \<Rightarrow> py_error + pyval" where
  "append v x = (case v of PList xs \<Rightarrow> Inr (PList (xs @ [x])) | _ \<Rightarrow> Inl AttributeError)"

text \<open>
  \<open>DatabaseWrapper.insert_data\<close>: \<open>collection.insert_many(data)\<close> inside
  \<open>try ... except Exception\<close>. The driver call is a parameter: it returns the
  collection afterwards and whether it raised; the exception is printed, not raised.
\<close>

definition insert_data :: "('c \<Rightarrow> pyval \<Rightarrow> 'c \<times> bool) \<Rightarrow> 'c \<Rightarrow> pyval \<Rightarrow> 'c" where
  "insert_data insert_many coll d = fst (insert_many coll d)"

text \<open>
  The loop of \<open>ArticleDatabase.insert_articles\<close>:
  \<^verbatim>\<open>
    for key, value in article_data.items():
        value["_id"] = key
        article_data.append(value)
  \<close>
  over the items already taken, threading the rebound \<open>article_data\<close>.
\<close>

fun insert_articles_loop :: "(pyval \<times> pyval) list \<Rightarrow> pyval \<Rightarrow> py_error + pyval" where
  "insert_articles_loop [] article_data = Inr article_data"
| "insert_articles_loop ((key, val) # kvs) article_data =
     (case setitem val (PStr ''_id'') key of
        Inl e \<Rightarrow> Inl e
      | Inr val' \<Rightarrow>
          (case append article_data val' of
             Inl e \<Rightarrow> Inl e
           | Inr article_data' \<Rightarrow> insert_articles_loop kvs article_data'))"

text \<open>
  \<open>ArticleDatabase.insert_articles(self, article_data)\<close>. The first statement rebinds
  the parameter to an empty list; the caller's dictionary is not read again. The
  result is the collection afterwards and the exception raised, if any.
\<close>

definition insert_articles ::
  "('c \<Rightarrow> pyval \<Rightarrow> 'c \<times> bool) \<Rightarrow> 'c \<Rightarrow> pyval \<Rightarrow> 'c \<times> py_error option" where
  "insert_articles insert_many coll article_data0 =
     (let article_data = PList [] in
      case items article_data of
        Inl e \<Rightarrow> (coll, Some e)
      | Inr kvs \<Rightarrow>
          (case insert_articles_loop kvs article_data of
             Inl e \<Rightarrow> (coll, Some e)
           | Inr article_data' \<Rightarrow> (insert_data insert_many coll article_data', None)))"

section \<open>src/academic_metrics/runners/pipeline.py\<close>

subsection \<open>Keyword-only calls and attribute lookup\<close>










subsection \<open>run_pipeline\<close>

text \<open>
  The filter loop of \<open>run_pipeline\<close>:
  \<^verbatim>\<open>
    for article in data:
        attribute_results = self.utilities.get_attributes(article, [AttributeTypes.CROSSREF_DOI])
        doi = attribute_results[AttributeTypes.CROSSREF_DOI]
        if doi[0] and doi[1] not in existing_dois:
            filtered_data.append(article)
        else:
            already_existing_count += 1
  \<close>
  \<open>Utilities\<close> is a collaborator: \<open>get_attributes\<close> is a parameter that gives the
  pair \<open>doi\<close> (whether the DOI was found, and its value) of an article. The
  accumulator is \<open>(filtered_data, already_existing_count)\<close>.
\<close>

fun filter_articles ::
  "('a \<Rightarrow> bool \<times> 'i) \<Rightarrow> 'i set \<Rightarrow> 'a list \<Rightarrow> 'a list \<times> nat \<Rightarrow> 'a list \<times> nat" where
  "filter_articles get_attributes existing_dois [] (filtered_data, already_existing_count) =
     (filtered_data, already_existing_count)"
| "filter_articles get_attributes existing_dois (article # rest)
       (filtered_data, already_existing_count) =
     (let doi = get_attributes article in
      if fst doi \<and> snd doi \<notin> existing_dois
      then filter_articles get_attributes existing_dois rest
             (filtered_data @ [article], already_existing_count)
      else filter_articles get_attributes existing_dois rest
             (filtered_data, already_existing_count + 1))"

text \<open>Python's \<open>data[:n]\<close>: a negative \<open>n\<close> counts from the end.\<close>

definition slice_to :: "int \<Rightarrow> 'a list \<Rightarrow> 'a list" where
  "slice_to n xs = (if 0 \<le> n then take (nat n) xs else take (nat (int (length xs) + n)) xs)"

text \<open>
  The value of \<open>data\<close> that \<open>run_pipeline\<close> hands to \<open>run_classification\<close>: the fetched
  batch after the filter loop and, in debug mode, after the slice the operator asks
  for. \<open>response\<close> is the first line read from the console; \<open>res\<close> is \<open>int(...)\<close> of
  the second, \<open>None\<close> when it is no integer literal (ValueError).
\<close>

definition run_pipeline_data ::
  "('a \<Rightarrow> bool \<times> 'i) \<Rightarrow> 'i set \<Rightarrow> bool \<Rightarrow> string \<Rightarrow> int option \<Rightarrow> 'a list
     \<Rightarrow> py_error + 'a list" where
  "run_pipeline_data get_attributes existing_dois debug response res data =
     (let filtered_data = fst (filter_articles get_attributes existing_dois data ([], 0)) in
      if debug then
        (if response = ''y'' then
           (case res of
              None \<Rightarrow> Inl ValueError
            | Some n \<Rightarrow> Inr (slice_to n filtered_data))
         else Inr filtered_data)
      else Inr filtered_data)"




section \<open>src/academic_metrics/main/category_data_orchestrator.py\<close>

subsection \<open>Data model\<close>

text \<open>
  A Python \<open>str\<close> whose characters the code inspects is the list of its code
  points. Category names are such strings: \<open>addUrl\<close> lowercases them and matches
  them against a pattern. \<open>ustr\<close> writes an ASCII literal as a \<open>str\<close>.
\<close>

type_synonym str = "nat list"

definition ustr :: "string \<Rightarrow> str" where
  "ustr s = map of_char s"

text \<open>
  Modelled from the spec: the dataclass \<open>CategoryInfo\<close> of
  \<open>academic_metrics.data_models\<close>, which is not among the sources. The fields are
  those of section 3 of the specification; \<open>url\<close>, \<open>faculty\<close>, \<open>departments\<close> and
  \<open>tc_list\<close> are the names under which the orchestrator reaches them. \<open>doi_list\<close>
  is the set of contributing article identifiers, \<open>tc_list\<close> the citation counts,
  one for each contributing article.
\<close>

record CategoryInfo =
  url :: str
  category_name :: str
  faculty_count :: nat
  department_count :: nat
  article_count :: nat
  tc_list :: "nat list"
  doi_list :: "string fset"
  faculty :: "string fset"
  departments :: "string fset"

text \<open>
  Modelled from the spec: one entry of a \<open>FacultyStats\<close> map (section 3): the
  citation total, the article count and the set of contributing article identifiers
  of one faculty display name.
\<close>

record FacultyInfo =
  total_citations :: nat
  faculty_article_count :: nat
  faculty_doi_list :: "string fset"

text \<open>
  A \<open>FacultyStats\<close> object is represented by its \<open>faculty_stats\<close> dictionary, keyed
  by faculty display name.
\<close>

type_synonym FacultyStats = "(string \<times> FacultyInfo) list"

text \<open>
  Modelled from the spec: \<open>NameVariation\<close> (section 3), a canonical name with the
  variant spellings known to refer to the same person.
\<close>

type_synonym NameVariations = "(string \<times> string list) list"

text \<open>
  Modelled from the spec: \<open>ClassifiedRecord\<close> (section 3). \<open>record_identifier\<close> is
  \<open>None\<close> for a record without one; a category path is carried as the key under
  which the category data holds it.
\<close>

record ClassifiedRecord =
  record_identifier :: "string option"
  title :: string
  citation_count :: nat
  authors :: "string list"
  department_affiliations :: "string list"
  categories :: "str list"
  publication_year :: nat

text \<open>The diagnostics of the warning collector (section 7).\<close>

datatype diagnostic = MalformedRecord ClassifiedRecord

text \<open>
  The state that the orchestrator works on: its \<open>data\<close>, the dictionaries of its
  \<open>category_processor\<close>, the \<open>name_variations\<close> of its \<open>faculty_postprocessor\<close> and
  the diagnostics of its \<open>warning_manager\<close>.
\<close>

record orchestrator =
  data :: "ClassifiedRecord list"
  category_data :: "(str \<times> CategoryInfo) list"
  faculty_stats :: "(str \<times> FacultyStats) list"
  global_faculty_stats :: "(string \<times> FacultyInfo) list"
  vocabulary :: "string fset"
  name_variations :: NameVariations
  warnings :: "diagnostic list"

text \<open>
  The collaborators of \<open>academic_metrics.core\<close> and \<open>academic_metrics.data_models\<close>
  that the orchestrator calls and whose code is not among the sources, as
  parameters: \<open>CategoryProcessor.process_data_list\<close>,
  \<open>FacultyPostprocessor.remove_near_duplicates\<close>,
  \<open>FacultyDepartmentManager.update_faculty_count\<close> and \<open>update_department_count\<close>,
  and \<open>FacultyStats.refine_faculty_stats\<close> (of one faculty name, on one category's
  object). Each works in place on the objects it can reach and returns normally.
  With them comes the built-in \<open>str.lower\<close>, which \<open>addUrl\<close> calls: the case
  mapping of Unicode is a table of the interpreter, not of this repository.
\<close>

record collaborators =
  process_data_list :: "ClassifiedRecord list \<Rightarrow> orchestrator \<Rightarrow> orchestrator"
  remove_near_duplicates :: "orchestrator \<Rightarrow> orchestrator"
  update_faculty_count :: "orchestrator \<Rightarrow> orchestrator"
  update_department_count :: "orchestrator \<Rightarrow> orchestrator"
  member_refine_faculty_stats :: "string \<Rightarrow> NameVariations \<Rightarrow> FacultyStats \<Rightarrow> FacultyStats"
  str_lower :: "str \<Rightarrow> str"

text \<open>The calls that the orchestrator makes on its collaborators and on itself, as logged.\<close>

datatype call =
    ProcessDataList
  | RemoveNearDuplicates
  | UpdateFacultyCount
  | UpdateDepartmentCount
  | RefineFacultyStats str string
  | SaveAllResults

text \<open>A call: it is appended to the log and its effect is applied to the state.\<close>

definition invoke :: "call \<Rightarrow> ('s \<Rightarrow> 's) \<Rightarrow> call list \<times> 's \<Rightarrow> call list \<times> 's" where
  "invoke c f ls = (fst ls @ [c], f (snd ls))"

subsection \<open>addUrl\<close>

text \<open>The character class \<open>[A-Za-z0-9-]\<close>, which the pattern of \<open>addUrl\<close> negates.\<close>

definition url_allowed :: "nat \<Rightarrow> bool" where
  "url_allowed c =
     ((65 \<le> c \<and> c \<le> 90) \<or> (97 \<le> c \<and> c \<le> 122) \<or> (48 \<le> c \<and> c \<le> 57) \<or> c = 45)"

text \<open>
  \<open>re.sub\<close> of a pattern \<open>[class]+\<close> by \<open>"-"\<close> (code point 45): scanning from
  the left, each maximal run of characters of the class becomes one hyphen.
\<close>

function sub_runs :: "(nat \<Rightarrow> bool) \<Rightarrow> str \<Rightarrow> str" where
  "sub_runs P [] = []"
| "sub_runs P (c # cs) =
     (if P c then 45 # sub_runs P (dropWhile P cs) else c # sub_runs P cs)"
  by pat_completeness auto
termination
  by (relation "measure (\<lambda>(P, s). length s)") (auto simp: length_dropWhile_le less_Suc_eq_le)

text \<open>\<open>s.strip(c)\<close> for a single character \<open>c\<close>.\<close>

definition strip :: "nat \<Rightarrow> str \<Rightarrow> str" where
  "strip c s = rev (dropWhile (\<lambda>x. x = c) (rev (dropWhile (\<lambda>x. x = c) s)))"

text \<open>
  The body of the loop of \<open>addUrl\<close>, for one category name:
  \<^verbatim>\<open>
    url = pattern.sub("-", category.lower())     # pattern = [^A-Za-z0-9-]+
    url = re.sub("-+", "-", url)
    url = url.strip("-")
  \<close>
  \<open>lower\<close> is \<open>str.lower\<close>.
\<close>

definition addUrl_url :: "(str \<Rightarrow> str) \<Rightarrow> str \<Rightarrow> str" where
  "addUrl_url lower category =
     (let url = sub_runs (\<lambda>c. \<not> url_allowed c) (lower category);
          url = sub_runs (\<lambda>c. c = 45) url;
          url = strip 45 url
      in url)"

text \<open>\<open>addUrl\<close>: every entry of the category data gets the url of its key.\<close>

definition addUrl ::
  "(str \<Rightarrow> str) \<Rightarrow> (str \<times> CategoryInfo) list \<Rightarrow> (str \<times> CategoryInfo) list" where
  "addUrl lower tempDict =
     map (\<lambda>(category, values). (category, values\<lparr>url := addUrl_url lower category\<rparr>)) tempDict"

text \<open>
  The slug of a name as the specification has it, written without reference to the
  three steps of the code: the maximal runs of ASCII letters and digits of the
  lowercased name, joined by single hyphens.
\<close>

definition alnum :: "nat \<Rightarrow> bool" where
  "alnum c = ((65 \<le> c \<and> c \<le> 90) \<or> (97 \<le> c \<and> c \<le> 122) \<or> (48 \<le> c \<and> c \<le> 57))"

function alnum_words :: "str \<Rightarrow> str list" where
  "alnum_words [] = []"
| "alnum_words (c # cs) =
     (if alnum c then (c # takeWhile alnum cs) # alnum_words (dropWhile alnum cs)
      else alnum_words cs)"
  by pat_completeness auto
termination
  by (relation "measure length") (auto simp: length_dropWhile_le less_Suc_eq_le)

fun join_hyphen :: "str list \<Rightarrow> str" where
  "join_hyphen [] = []"
| "join_hyphen [w] = w"
| "join_hyphen (w # ws) = w @ 45 # join_hyphen ws"

text \<open>
  What a URL-safe slug is: lowercase ASCII letters, digits and hyphens only, no two
  hyphens in a row, and no hyphen at either end.
\<close>

definition slug_char :: "nat \<Rightarrow> bool" where
  "slug_char c = ((97 \<le> c \<and> c \<le> 122) \<or> (48 \<le> c \<and> c \<le> 57) \<or> c = 45)"

fun adjacent_hyphens :: "str \<Rightarrow> bool" where
  "adjacent_hyphens (x # y # zs) = ((x = 45 \<and> y = 45) \<or> adjacent_hyphens (y # zs))"
| "adjacent_hyphens _ = False"

definition url_safe :: "str \<Rightarrow> bool" where
  "url_safe s =
     (list_all slug_char s \<and> \<not> adjacent_hyphens s
      \<and> (s \<noteq> [] \<longrightarrow> hd s \<noteq> 45 \<and> last s \<noteq> 45))"

text \<open>A string that holds no ASCII capital, as every result of \<open>str.lower\<close> is.\<close>

definition no_ascii_capital :: "str \<Rightarrow> bool" where
  "no_ascii_capital s = list_all (\<lambda>c. \<not> (65 \<le> c \<and> c \<le> 90)) s"

text \<open>\<open>str.lower\<close> on a string of ASCII characters: the capitals move up by 32.\<close>

definition ascii_lower :: "str \<Rightarrow> str" where
  "ascii_lower s = map (\<lambda>c. if 65 \<le> c \<and> c \<le> 90 then c + 32 else c) s"

subsection \<open>convert_sets_to_lists\<close>

text \<open>
  The loop of \<open>convert_sets_to_lists\<close> over the items of \<open>data_dict\<close>:
  \<^verbatim>\<open>
    for key, value in data_dict.items():
        if isinstance(value, set):
            data_dict[key] = list(value)
        elif isinstance(value, list):
            continue
        elif isinstance(value, dict):
            data_dict[key] = self.convert_sets_to_lists(value)
  \<close>
  The dictionary is mutated in place; here it is threaded through the loop and
  returned. Values are trees: two keys never share one object, and no dictionary
  contains itself.
\<close>

fun convert_dict :: "(pyval \<times> pyval) list \<Rightarrow> (pyval \<times> pyval) list" where
  "convert_dict data_dict =
     fold (\<lambda>(key, val) d.
             case val of
               PSet xs \<Rightarrow> AList.update key (PList xs) d
             | PList xs \<Rightarrow> d
             | PDict sub \<Rightarrow> AList.update key (PDict (convert_dict sub)) d
             | _ \<Rightarrow> d)
          data_dict data_dict"

text \<open>
  \<open>convert_sets_to_lists(self, data_dict)\<close>: an argument that is no dictionary has
  no \<open>items\<close>.
\<close>

definition convert_sets_to_lists :: "pyval \<Rightarrow> py_error + pyval" where
  "convert_sets_to_lists data_dict =
     (case data_dict of
        PDict kvs \<Rightarrow> Inr (PDict (convert_dict kvs))
      | _ \<Rightarrow> Inl AttributeError)"

text \<open>
  The conversion as the specification words it: a set becomes the list of its
  elements, a dictionary is converted entry by entry, and every other value, a list
  with whatever it holds included, stays as it is.
\<close>

fun sets_to_lists_spec :: "pyval \<Rightarrow> pyval" where
  "sets_to_lists_spec (PSet xs) = PList xs"
| "sets_to_lists_spec (PDict kvs) = PDict (map (\<lambda>(k, v). (k, sets_to_lists_spec v)) kvs)"
| "sets_to_lists_spec v = v"

text \<open>A dictionary has each key once, and so has every dictionary nested in it.\<close>

fun dict_wf :: "pyval \<Rightarrow> bool" where
  "dict_wf (PDict kvs) = (distinct (map fst kvs) \<and> (\<forall>(k, v) \<in> set kvs. dict_wf v))"
| "dict_wf _ = True"

text \<open>No value of the dictionary, or of a dictionary nested in it at any depth, is a set.\<close>

fun set_free :: "pyval \<Rightarrow> bool" where
  "set_free (PDict kvs) =
     (\<forall>(k, v) \<in> set kvs. (case v of PSet xs \<Rightarrow> False | _ \<Rightarrow> True) \<and> set_free v)"
| "set_free _ = True"

text \<open>The values that the loop assigns anew: sets and dictionaries.\<close>

definition changed :: "pyval \<Rightarrow> bool" where
  "changed v = (case v of PSet xs \<Rightarrow> True | PDict sub \<Rightarrow> True | _ \<Rightarrow> False)"

subsection \<open>run_orchestrator\<close>

text \<open>
  \<open>refine_faculty_sets(faculty_postprocessor, faculty_department_manager, category_dict)\<close>:
  \<^verbatim>\<open>
    faculty_postprocessor.remove_near_duplicates(category_dict=category_dict)
    faculty_department_manager.update_faculty_count()
    faculty_department_manager.update_department_count()
  \<close>
\<close>

definition refine_faculty_sets ::
  "collaborators \<Rightarrow> call list \<times> orchestrator \<Rightarrow> call list \<times> orchestrator" where
  "refine_faculty_sets co ls =
     invoke UpdateDepartmentCount (update_department_count co)
       (invoke UpdateFacultyCount (update_faculty_count co)
          (invoke RemoveNearDuplicates (remove_near_duplicates co) ls))"

text \<open>
  The inner loop of \<open>refine_faculty_stats\<close>, over the faculty names listed before
  the loop starts:
  \<^verbatim>\<open>
    for faculty_member in faculty_members:
        faculty_stats[category].refine_faculty_stats(
            faculty_name_unrefined=faculty_member, name_variations=name_variations)
  \<close>
\<close>

fun refine_members ::
  "collaborators \<Rightarrow> str \<Rightarrow> NameVariations \<Rightarrow> string list
     \<Rightarrow> call list \<times> FacultyStats \<Rightarrow> call list \<times> FacultyStats" where
  "refine_members co category nv [] ls = ls"
| "refine_members co category nv (faculty_member # rest) ls =
     refine_members co category nv rest
       (invoke (RefineFacultyStats category faculty_member)
          (member_refine_faculty_stats co faculty_member nv) ls)"

text \<open>
  The outer loop, over the categories listed before it starts.
  \<open>faculty_stats[category]\<close> raises KeyError for a category without an entry; what
  earlier iterations did in place stays done.
\<close>

fun refine_categories ::
  "collaborators \<Rightarrow> NameVariations \<Rightarrow> str list
     \<Rightarrow> call list \<times> (str \<times> FacultyStats) list
     \<Rightarrow> (call list \<times> (str \<times> FacultyStats) list) \<times> py_error option" where
  "refine_categories co nv [] ls = (ls, None)"
| "refine_categories co nv (category # rest) ls =
     (case map_of (snd ls) category of
        None \<Rightarrow> (ls, Some KeyError)
      | Some category_faculty_stats \<Rightarrow>
          (let faculty_members = map fst category_faculty_stats;
               refined = refine_members co category nv faculty_members
                           (fst ls, category_faculty_stats)
           in refine_categories co nv rest
                (fst refined, AList.update category (snd refined) (snd ls))))"

text \<open>
  \<open>refine_faculty_stats(self, *, faculty_stats, name_variations, category_dict)\<close>.
  Only \<open>faculty_stats\<close> is written; \<open>category_dict\<close> gives the categories.
\<close>

definition refine_faculty_stats ::
  "collaborators \<Rightarrow> (str \<times> FacultyStats) list \<Rightarrow> NameVariations
     \<Rightarrow> (str \<times> CategoryInfo) list \<Rightarrow> call list
     \<Rightarrow> (call list \<times> (str \<times> FacultyStats) list) \<times> py_error option" where
  "refine_faculty_stats co faculty_stats' name_variations' category_dict log =
     (let categories' = map fst category_dict
      in refine_categories co name_variations' categories' (log, faculty_stats'))"

text \<open>
  \<open>_save_all_results\<close>, as far as it changes the state: \<open>serialize_and_save_data\<close>
  calls \<open>addUrl\<close>; the other steps work on copies and write files, which are outside
  the model.
\<close>

definition save_all_results :: "(str \<Rightarrow> str) \<Rightarrow> orchestrator \<Rightarrow> orchestrator" where
  "save_all_results lower s = s\<lparr>category_data := addUrl lower (category_data s)\<rparr>"

text \<open>
  \<open>run_orchestrator(self)\<close>:
  \<^verbatim>\<open>
    self.category_processor.process_data_list(self.data)
    category_data = self._get_category_data()
    self.refine_faculty_sets(...)
    self.refine_faculty_stats(faculty_stats=self.category_processor.faculty_stats,
        name_variations=self.faculty_postprocessor.name_variations,
        category_dict=category_data)
    self._save_all_results()
  \<close>
  The result is the log of the calls made, the state afterwards and the exception
  that ended the run, if any. \<open>category_data\<close> names the dictionary object of the
  processor, so it is read where it is used.
\<close>

definition run_orchestrator ::
  "collaborators \<Rightarrow> orchestrator \<Rightarrow> (call list \<times> orchestrator) \<times> py_error option" where
  "run_orchestrator co s =
     (let processed = invoke ProcessDataList (process_data_list co (data s)) ([], s);
          sets_refined = refine_faculty_sets co processed;
          s2 = snd sets_refined;
          stats_refined = refine_faculty_stats co (faculty_stats s2) (name_variations s2)
                            (category_data s2) (fst sets_refined);
          s3 = s2\<lparr>faculty_stats := snd (fst stats_refined)\<rparr>
      in case snd stats_refined of
           Some e \<Rightarrow> ((fst (fst stats_refined), s3), Some e)
         | None \<Rightarrow> (invoke SaveAllResults (save_all_results (str_lower co))
                      (fst (fst stats_refined), s3), None))"

text \<open>
  The state in which \<open>run_orchestrator\<close> enters \<open>refine_faculty_stats\<close>: after the
  processing of the data, the removal of near duplicates and the two count updates.
\<close>

definition after_recompute :: "collaborators \<Rightarrow> orchestrator \<Rightarrow> orchestrator" where
  "after_recompute co s =
     update_department_count co
       (update_faculty_count co
          (remove_near_duplicates co (process_data_list co (data s) s)))"

text \<open>
  The calls of \<open>FacultyStats.refine_faculty_stats\<close> that the two loops are to make:
  for each category in order, as long as the faculty statistics have an entry for it,
  one call for each faculty name of that entry.
\<close>

definition faculty_members_of :: "(str \<times> FacultyStats) list \<Rightarrow> str \<Rightarrow> string list" where
  "faculty_members_of fs category =
     (case map_of fs category of None \<Rightarrow> [] | Some category_faculty_stats \<Rightarrow> map fst category_faculty_stats)"

definition has_faculty_stats :: "(str \<times> FacultyStats) list \<Rightarrow> str \<Rightarrow> bool" where
  "has_faculty_stats fs category = (map_of fs category \<noteq> None)"

definition expected_refinements :: "(str \<times> FacultyStats) list \<Rightarrow> str list \<Rightarrow> call list" where
  "expected_refinements fs cats =
     concat (map (\<lambda>category. map (RefineFacultyStats category) (faculty_members_of fs category))
               (takeWhile (has_faculty_stats fs) cats))"

text \<open>The calls that may follow the count updates: refinements of faculty statistics and the save.\<close>

fun refine_or_save :: "call \<Rightarrow> bool" where
  "refine_or_save (RefineFacultyStats category faculty_member) = True"
| "refine_or_save SaveAllResults = True"
| "refine_or_save _ = False"

subsection \<open>The collaborators as the specification describes them\<close>

text \<open>
  Modelled from the spec: \<open>FacultyDepartmentManager.update_faculty_count\<close> and
  \<open>update_department_count\<close>, the Relationship Tracker of section 4.3, which
  recompute every category's derived count from its current set.
\<close>

definition Tracker_update_faculty_count :: "orchestrator \<Rightarrow> orchestrator" where
  "Tracker_update_faculty_count s =
     s\<lparr>category_data :=
         map (\<lambda>(category, info). (category, info\<lparr>faculty_count := fcard (faculty info)\<rparr>))
           (category_data s)\<rparr>"

definition Tracker_update_department_count :: "orchestrator \<Rightarrow> orchestrator" where
  "Tracker_update_department_count s =
     s\<lparr>category_data :=
         map (\<lambda>(category, info).
                (category, info\<lparr>department_count := fcard (departments info)\<rparr>))
           (category_data s)\<rparr>"





text \<open>
  Modelled from the spec: the canonical name of a spelling under a NameVariation
  mapping (section 4.2): the canonical name of the first group that holds the
  spelling, and the spelling itself when no group does.
\<close>

definition canonical_name :: "NameVariations \<Rightarrow> string \<Rightarrow> string" where
  "canonical_name nv name =
     (case find (\<lambda>(canonical, variants). name = canonical \<or> name \<in> set variants) nv of
        Some (canonical, variants) \<Rightarrow> canonical
      | None \<Rightarrow> name)"

text \<open>
  The mapping is one that a Resolver produces: the canonical name of each group
  stands for itself.
\<close>

definition canonical_fixed :: "NameVariations \<Rightarrow> bool" where
  "canonical_fixed nv = list_all (\<lambda>(canonical, variants). canonical_name nv canonical = canonical) nv"

text \<open>Every key of a category's faculty statistics is a canonical name.\<close>

definition all_canonical :: "NameVariations \<Rightarrow> FacultyStats \<Rightarrow> bool" where
  "all_canonical nv fs = list_all (\<lambda>(name, info). canonical_name nv name = name) fs"

text \<open>Merging a variant's entry into the canonical one: counts and totals add, identifier sets unite.\<close>

definition merge_faculty_info :: "FacultyInfo \<Rightarrow> FacultyInfo \<Rightarrow> FacultyInfo" where
  "merge_faculty_info canonical_info variant_info =
     \<lparr>total_citations = total_citations canonical_info + total_citations variant_info,
      faculty_article_count =
        faculty_article_count canonical_info + faculty_article_count variant_info,
      faculty_doi_list = faculty_doi_list canonical_info |\<union>| faculty_doi_list variant_info\<rparr>"

text \<open>
  Modelled from the spec: \<open>FacultyStats.refine_faculty_stats\<close>, the Statistics
  Refiner of section 4.4 on one faculty name of one category: a name that maps to a
  different canonical name is merged into the canonical entry and its key removed,
  or renamed in place when the category has no canonical entry yet.
\<close>

definition Refiner_refine_faculty_stats ::
  "string \<Rightarrow> NameVariations \<Rightarrow> FacultyStats \<Rightarrow> FacultyStats" where
  "Refiner_refine_faculty_stats faculty_name_unrefined nv fs =
     (let canonical = canonical_name nv faculty_name_unrefined in
      if canonical = faculty_name_unrefined then fs
      else
        (case map_of fs faculty_name_unrefined of
           None \<Rightarrow> fs
         | Some variant_info \<Rightarrow>
             (case map_of fs canonical of
                Some canonical_info \<Rightarrow>
                  AList.delete faculty_name_unrefined
                    (AList.update canonical (merge_faculty_info canonical_info variant_info) fs)
              | None \<Rightarrow>
                  map (\<lambda>(name, info).
                         (if name = faculty_name_unrefined then canonical else name, info)) fs)))"


text \<open>
  Modelled from the spec: the Category Aggregator of section 4.1,
  \<open>CategoryProcessor.process_data_list\<close>. First the entries it creates.
\<close>

definition new_category :: "str \<Rightarrow> CategoryInfo" where
  "new_category category =
     \<lparr>url = [], category_name = category, faculty_count = 0, department_count = 0,
      article_count = 0, tc_list = [], doi_list = {||}, faculty = {||}, departments = {||}\<rparr>"

definition new_faculty :: FacultyInfo where
  "new_faculty = \<lparr>total_citations = 0, faculty_article_count = 0, faculty_doi_list = {||}\<rparr>"

text \<open>The contribution of one article to the entry of one author within one category.\<close>

definition contribute_faculty :: "string \<Rightarrow> nat \<Rightarrow> string \<Rightarrow> FacultyStats \<Rightarrow> FacultyStats" where
  "contribute_faculty ident cites author fs =
     (let entry = (case map_of fs author of Some e \<Rightarrow> e | None \<Rightarrow> new_faculty)
      in AList.update author
           (entry\<lparr>total_citations := total_citations entry + cites,
                  faculty_article_count := faculty_article_count entry + 1,
                  faculty_doi_list := finsert ident (faculty_doi_list entry)\<rparr>) fs)"

text \<open>
  The contribution of one record to one of its categories. A record whose identifier
  the category already holds is skipped for that category.
\<close>

definition process_category ::
  "ClassifiedRecord \<Rightarrow> string \<Rightarrow> str \<Rightarrow> orchestrator \<Rightarrow> orchestrator" where
  "process_category r ident category s =
     (let info = (case map_of (category_data s) category of
                    Some i \<Rightarrow> i | None \<Rightarrow> new_category category);
          fs = (case map_of (faculty_stats s) category of Some f \<Rightarrow> f | None \<Rightarrow> [])
      in if ident |\<in>| doi_list info then s
         else s\<lparr>category_data :=
                   AList.update category
                     (info\<lparr>article_count := article_count info + 1,
                           tc_list := tc_list info @ [citation_count r],
                           doi_list := finsert ident (doi_list info),
                           faculty := faculty info |\<union>| fset_of_list (authors r),
                           departments :=
                             departments info |\<union>| fset_of_list (department_affiliations r)\<rparr>)
                     (category_data s),
                 faculty_stats :=
                   AList.update category
                     (fold (contribute_faculty ident (citation_count r)) (authors r) fs)
                     (faculty_stats s),
                 vocabulary := vocabulary s |\<union>| fset_of_list (authors r)\<rparr>)"

text \<open>A record that lacks a required field: the identifier, the categories or the authors.\<close>

definition malformed :: "ClassifiedRecord \<Rightarrow> bool" where
  "malformed r = (record_identifier r = None \<or> categories r = [] \<or> authors r = [])"

text \<open>
  One record: a malformed one is reported to the warning collector and contributes
  nothing; any other contributes to each of its categories.
\<close>

definition Aggregator_process_record :: "ClassifiedRecord \<Rightarrow> orchestrator \<Rightarrow> orchestrator" where
  "Aggregator_process_record r s =
     (case record_identifier r of
        None \<Rightarrow> s\<lparr>warnings := warnings s @ [MalformedRecord r]\<rparr>
      | Some ident \<Rightarrow>
          if categories r = [] \<or> authors r = []
          then s\<lparr>warnings := warnings s @ [MalformedRecord r]\<rparr>
          else fold (process_category r ident) (categories r) s)"

definition Aggregator_process :: "ClassifiedRecord list \<Rightarrow> orchestrator \<Rightarrow> orchestrator" where
  "Aggregator_process records s = fold Aggregator_process_record records s"

text \<open>The category holds the identifier: the duplicate guard of section 4.1.\<close>

definition holds_identifier :: "string \<Rightarrow> str \<Rightarrow> orchestrator \<Rightarrow> bool" where
  "holds_identifier ident category s =
     (case map_of (category_data s) category of
        None \<Rightarrow> False
      | Some info \<Rightarrow> ident |\<in>| doi_list info)"

text \<open>
  Processing the record again changes no aggregate: it is malformed, or each of its
  categories holds its identifier.
\<close>

definition seen :: "ClassifiedRecord \<Rightarrow> orchestrator \<Rightarrow> bool" where
  "seen r s =
     (malformed r \<or>
      (case record_identifier r of
         None \<Rightarrow> True
       | Some ident \<Rightarrow> list_all (\<lambda>category. holds_identifier ident category s) (categories r)))"

subsection \<open>The scenario of section 8\<close>

text \<open>
  Two records of the category \<open>CS\<close>, by \<open>J. Smith\<close> and by \<open>John Smith\<close>, with a
  resolver that judges the two spellings to be one person and replaces the variant
  in the faculty sets.
\<close>

definition empty_orchestrator :: "ClassifiedRecord list \<Rightarrow> orchestrator" where
  "empty_orchestrator records =
     \<lparr>data = records, category_data = [], faculty_stats = [], global_faculty_stats = [],
      vocabulary = {||}, name_variations = [], warnings = []\<rparr>"

definition scenario_data :: "ClassifiedRecord list" where
  "scenario_data =
     [\<lparr>record_identifier = Some ''a1'', title = [], citation_count = 5,
       authors = [''J. Smith''], department_affiliations = [], categories = [ustr ''CS''],
       publication_year = 2024\<rparr>,
      \<lparr>record_identifier = Some ''a2'', title = [], citation_count = 3,
       authors = [''John Smith''], department_affiliations = [], categories = [ustr ''CS''],
       publication_year = 2024\<rparr>]"

definition scenario_remove_near_duplicates :: "orchestrator \<Rightarrow> orchestrator" where
  "scenario_remove_near_duplicates s =
     (let nv = [(''John Smith'', [''J. Smith''])]
      in s\<lparr>name_variations := nv,
            category_data :=
              map (\<lambda>(category, info).
                     (category, info\<lparr>faculty := fimage (canonical_name nv) (faculty info)\<rparr>))
                (category_data s)\<rparr>)"

definition scenario_collaborators :: collaborators where
  "scenario_collaborators =
     \<lparr>process_data_list = Aggregator_process,
      remove_near_duplicates = scenario_remove_near_duplicates,
      update_faculty_count = Tracker_update_faculty_count,
      update_department_count = Tracker_update_department_count,
      member_refine_faculty_stats = Refiner_refine_faculty_stats,
      str_lower = ascii_lower\<rparr>"


section \<open>Properties of Database/DatabaseSetup.py\<close>

text \<open>
  C9. Whatever dictionary the caller passes (the empty one included), and whatever the
  collection and the driver are, \<open>insert_articles\<close> raises AttributeError and leaves
  the collection as it was: the parameter has been rebound to an empty list, and a
  list has no \<open>items\<close>.
\<close>

theorem insert_articles_raises_AttributeError:
  "insert_articles insert_many coll article_data = (coll, Some AttributeError)"
  by (simp add: insert_articles_def items_def)

section \<open>Properties of src/academic_metrics/runners/pipeline.py\<close>

lemma filter_articles_acc:
  "filter_articles ga ex articles (fd, n) =
     (fd @ filter (\<lambda>a. fst (ga a) \<and> snd (ga a) \<notin> ex) articles,
      n + length (filter (\<lambda>a. \<not> (fst (ga a) \<and> snd (ga a) \<notin> ex)) articles))"
  by (induction articles arbitrary: fd n) (simp_all add: Let_def)

lemma set_slice_to: "set (slice_to n xs) \<subseteq> set xs"
  by (simp add: slice_to_def set_take_subset)



text \<open>
  C6, as amended. Write \<open>P a\<close> for: the DOI of \<open>a\<close> was extracted and is not among the
  known identifiers. Unless the run is in debug mode and the operator answers \<open>y\<close>,
  \<open>run_pipeline\<close> hands to classification exactly the fetched articles with \<open>P\<close>, in
  order: an article is retained if and only if it is in the batch and \<open>P\<close> holds. In
  debug mode with the answer \<open>y\<close> it hands over the slice \<open>[:int(res)]\<close> of those
  (or raises ValueError). In every case a retained article is in the batch and has \<open>P\<close>.
\<close>

theorem run_pipeline_data_retains:
  "(\<not> (debug \<and> response = ''y'') \<longrightarrow>
      run_pipeline_data ga ex debug response res articles
        = Inr (filter (\<lambda>a. fst (ga a) \<and> snd (ga a) \<notin> ex) articles)
      \<and> (\<forall>a. a \<in> set (filter (\<lambda>a. fst (ga a) \<and> snd (ga a) \<notin> ex) articles)
             \<longleftrightarrow> a \<in> set articles \<and> fst (ga a) \<and> snd (ga a) \<notin> ex))
   \<and> (debug \<and> response = ''y'' \<longrightarrow>
      run_pipeline_data ga ex debug response res articles
        = (case res of
             None \<Rightarrow> Inl ValueError
           | Some n \<Rightarrow> Inr (slice_to n (filter (\<lambda>a. fst (ga a) \<and> snd (ga a) \<notin> ex) articles))))
   \<and> (\<forall>d a. run_pipeline_data ga ex debug response res articles = Inr d \<longrightarrow> a \<in> set d
         \<longrightarrow> a \<in> set articles \<and> fst (ga a) \<and> snd (ga a) \<notin> ex)"
proof -
  let ?P = "\<lambda>a. fst (ga a) \<and> snd (ga a) \<notin> ex"
  have fd: "fst (filter_articles ga ex articles ([], 0)) = filter ?P articles"
    by (simp add: filter_articles_acc)
  have plain: "\<not> (debug \<and> response = ''y'') \<Longrightarrow>
      run_pipeline_data ga ex debug response res articles = Inr (filter ?P articles)"
    using fd by (auto simp add: run_pipeline_data_def Let_def)
  have sliced: "debug \<and> response = ''y'' \<Longrightarrow>
      run_pipeline_data ga ex debug response res articles
        = (case res of None \<Rightarrow> Inl ValueError | Some n \<Rightarrow> Inr (slice_to n (filter ?P articles)))"
    using fd by (simp add: run_pipeline_data_def Let_def)
  have sound: "a \<in> set articles \<and> ?P a"
    if "run_pipeline_data ga ex debug response res articles = Inr d" and "a \<in> set d" for d a
  proof (cases "debug \<and> response = ''y''")
    case True
    with sliced that(1) obtain n where "d = slice_to n (filter ?P articles)"
      by (auto split: option.splits)
    with that(2) set_slice_to have "a \<in> set (filter ?P articles)" by fastforce
    then show ?thesis by simp
  next
    case False
    with plain that(1) have "d = filter ?P articles" by simp
    with that(2) show ?thesis by simp
  qed
  show ?thesis
  proof (intro conjI impI allI)
    assume "\<not> (debug \<and> response = ''y'')"
    then show "run_pipeline_data ga ex debug response res articles = Inr (filter ?P articles)"
      by (rule plain)
  next
    fix a
    show "a \<in> set (filter ?P articles) \<longleftrightarrow> a \<in> set articles \<and> ?P a"
      by simp
  next
    assume "debug \<and> response = ''y''"
    then show "run_pipeline_data ga ex debug response res articles
        = (case res of None \<Rightarrow> Inl ValueError | Some n \<Rightarrow> Inr (slice_to n (filter ?P articles)))"
      by (rule sliced)
  next
    fix d a
    assume "run_pipeline_data ga ex debug response res articles = Inr d" and "a \<in> set d"
    then show "a \<in> set articles" using sound by blast
  next
    fix d a
    assume "run_pipeline_data ga ex debug response res articles = Inr d" and "a \<in> set d"
    then show "fst (ga a)" using sound by blast
  next
    fix d a
    assume "run_pipeline_data ga ex debug response res articles = Inr d" and "a \<in> set d"
    then show "snd (ga a) \<notin> ex" using sound by blast
  qed
qed

theorem run_pipeline_data_retains_witness:
  "run_pipeline_data (\<lambda>a::nat. (a \<noteq> 3, a)) {2} False ''n'' None [1, 2, 3] = Inr [1]"
  using run_pipeline_data_retains
    [of False "''n''" "\<lambda>a::nat. (a \<noteq> 3, a)" "{2}" None "[1, 2, 3]"]
  by simp

text \<open>
  C6 as first stated fails in debug mode: with the answer \<open>y\<close> and the count \<open>0\<close>,
  an article whose DOI was extracted and is unknown is not handed to classification.
\<close>

theorem run_pipeline_data_slice_counterexample:
  "run_pipeline_data (\<lambda>a::nat. (True, a)) {} True ''y'' (Some 0) [1] = Inr []
   \<and> fst ((\<lambda>a::nat. (True, a)) 1) \<and> snd ((\<lambda>a::nat. (True, a)) 1) \<notin> {}"
  by (simp add: run_pipeline_data_def slice_to_def)



section \<open>Properties of addUrl\<close>

lemma set_sub_runs: "set (sub_runs P s) \<subseteq> {45} \<union> {c \<in> set s. \<not> P c}"
proof (induction P s rule: sub_runs.induct)
  case (1 P)
  then show ?case by simp
next
  case (2 P c cs)
  have "set (dropWhile P cs) \<subseteq> set cs" by (rule set_dropWhileD[THEN subsetI])
  with 2 show ?case by (auto split: if_splits)
qed

lemma set_strip: "set (strip c s) \<subseteq> set s"
  by (auto simp: strip_def dest!: set_dropWhileD)

lemma slug_chars:
  assumes "no_ascii_capital (lower category)"
  shows "list_all slug_char (addUrl_url lower category)"
proof -
  let ?a = "sub_runs (\<lambda>c. \<not> url_allowed c) (lower category)"
  have a: "\<forall>c \<in> set ?a. slug_char c"
  proof
    fix c assume "c \<in> set ?a"
    with set_sub_runs[of "\<lambda>c. \<not> url_allowed c" "lower category"]
    have "c = 45 \<or> (c \<in> set (lower category) \<and> url_allowed c)" by auto
    then show "slug_char c"
      using assms by (auto simp: no_ascii_capital_def list_all_iff slug_char_def url_allowed_def)
  qed
  have "\<forall>c \<in> set (sub_runs (\<lambda>c. c = 45) ?a). slug_char c"
    using a set_sub_runs[of "\<lambda>c. c = 45" ?a] by (auto simp: slug_char_def)
  then have "\<forall>c \<in> set (addUrl_url lower category). slug_char c"
    using set_strip[of 45 "sub_runs (\<lambda>c. c = 45) ?a"]
    by (auto simp: addUrl_url_def Let_def)
  then show ?thesis by (simp add: list_all_iff)
qed

lemma adjacent_hyphens_Cons:
  "adjacent_hyphens (x # ys) \<longleftrightarrow>
     (ys \<noteq> [] \<and> x = 45 \<and> hd ys = 45) \<or> adjacent_hyphens ys"
  by (cases ys) auto

lemma adjacent_hyphens_append:
  "adjacent_hyphens (xs @ ys) \<longleftrightarrow>
     adjacent_hyphens xs \<or> adjacent_hyphens ys
     \<or> (xs \<noteq> [] \<and> ys \<noteq> [] \<and> last xs = 45 \<and> hd ys = 45)"
proof (induction xs)
  case Nil
  then show ?case by simp
next
  case (Cons x xs)
  show ?case
    by (cases xs; cases ys) (use Cons in \<open>auto simp: adjacent_hyphens_Cons\<close>)
qed

lemma adjacent_hyphens_rev: "adjacent_hyphens (rev s) \<longleftrightarrow> adjacent_hyphens s"
  by (induction s) (auto simp: adjacent_hyphens_append adjacent_hyphens_Cons hd_rev last_rev)

lemma adjacent_hyphens_dropWhile:
  "\<not> adjacent_hyphens s \<Longrightarrow> \<not> adjacent_hyphens (dropWhile Q s)"
  by (induction s) (auto simp: adjacent_hyphens_Cons)

lemma adjacent_hyphens_strip: "\<not> adjacent_hyphens s \<Longrightarrow> \<not> adjacent_hyphens (strip c s)"
  by (simp add: strip_def adjacent_hyphens_rev adjacent_hyphens_dropWhile)

lemma sub_runs_hd:
  "s \<noteq> [] \<Longrightarrow> \<not> P (hd s) \<Longrightarrow> sub_runs P s \<noteq> [] \<and> hd (sub_runs P s) = hd s"
  by (cases s) auto

lemma sub_runs_not_adjacent: "\<not> adjacent_hyphens (sub_runs (\<lambda>c. c = 45) s)"
proof (induction "\<lambda>c::nat. c = 45" s rule: sub_runs.induct)
  case 1
  then show ?case by simp
next
  case (2 c cs)
  show ?case
  proof (cases "c = 45")
    case True
    let ?r = "dropWhile (\<lambda>c. c = 45) cs"
    have "?r \<noteq> [] \<Longrightarrow> hd ?r \<noteq> 45"
      using hd_dropWhile[of "\<lambda>c. c = 45" cs] by simp
    then have "sub_runs (\<lambda>c. c = 45) ?r \<noteq> [] \<Longrightarrow>
        hd (sub_runs (\<lambda>c. c = 45) ?r) \<noteq> 45"
      using sub_runs_hd[of ?r "\<lambda>c. c = 45"] by (cases ?r) auto
    with 2 True show ?thesis by (auto simp: adjacent_hyphens_Cons)
  next
    case False
    with 2 show ?thesis by (auto simp: adjacent_hyphens_Cons)
  qed
qed

lemma last_dropWhile_nonempty:
  "dropWhile Q xs \<noteq> [] \<Longrightarrow> last (dropWhile Q xs) = last xs"
  by (induction xs) (auto split: if_splits)

lemma strip_ends:
  "strip c s \<noteq> [] \<Longrightarrow> hd (strip c s) \<noteq> c \<and> last (strip c s) \<noteq> c"
proof -
  assume ne: "strip c s \<noteq> []"
  let ?t = "dropWhile (\<lambda>x. x = c) s"
  let ?u = "dropWhile (\<lambda>x. x = c) (rev ?t)"
  have u: "?u \<noteq> []" using ne by (simp add: strip_def)
  then have hu: "hd ?u \<noteq> c" using hd_dropWhile[of "\<lambda>x. x = c" "rev ?t"] by simp
  then have l: "last (strip c s) \<noteq> c" using u by (simp add: strip_def last_rev)
  have t: "?t \<noteq> []"
  proof
    assume "?t = []"
    then have "?u = []" by (simp only: rev.simps dropWhile.simps)
    with u show False by simp
  qed
  then have ht: "hd ?t \<noteq> c" using hd_dropWhile[of "\<lambda>x. x = c" s] by simp
  have "last (rev ?t) = hd ?t" using t by (simp add: last_rev)
  moreover have "last ?u = last (rev ?t)" using u by (rule last_dropWhile_nonempty)
  ultimately have "hd (strip c s) \<noteq> c" using ht u by (simp add: strip_def hd_rev)
  with l show ?thesis by simp
qed

lemma url_safe_addUrl_url:
  assumes "no_ascii_capital (lower category)"
  shows "url_safe (addUrl_url lower category)"
  unfolding url_safe_def
proof (intro conjI impI)
  show "list_all slug_char (addUrl_url lower category)" using assms by (rule slug_chars)
  show "\<not> adjacent_hyphens (addUrl_url lower category)"
    by (simp add: addUrl_url_def Let_def adjacent_hyphens_strip sub_runs_not_adjacent)
  assume "addUrl_url lower category \<noteq> []"
  then show "hd (addUrl_url lower category) \<noteq> 45" "last (addUrl_url lower category) \<noteq> 45"
    using strip_ends by (auto simp: addUrl_url_def Let_def)
qed

lemma url_allowed_alnum: "url_allowed c \<longleftrightarrow> alnum c \<or> c = 45"
  by (auto simp: url_allowed_def alnum_def)

lemma alnum_not_hyphen: "alnum c \<Longrightarrow> c \<noteq> 45"
  by (auto simp: alnum_def)

lemma dropWhile_dropWhile_imp:
  "(\<And>x. P x \<Longrightarrow> Q x) \<Longrightarrow> dropWhile Q (dropWhile P xs) = dropWhile Q xs"
  by (induction xs) auto

lemma lstrip_sub_runs:
  "dropWhile (\<lambda>c. c = 45) (sub_runs (\<lambda>c. \<not> url_allowed c) xs)
     = sub_runs (\<lambda>c. \<not> url_allowed c) (dropWhile (\<lambda>c. \<not> alnum c) xs)"
proof (induction xs rule: length_induct)
  case (1 xs)
  show ?case
  proof (cases xs)
    case Nil
    then show ?thesis by simp
  next
    case (Cons c cs)
    consider "alnum c" | "c = 45" | "\<not> url_allowed c"
      using url_allowed_alnum by blast
    then show ?thesis
    proof cases
      case 1
      then show ?thesis using Cons by (simp add: url_allowed_alnum alnum_not_hyphen)
    next
      case 2
      then have na: "\<not> alnum c" using alnum_not_hyphen by blast
      from 1 Cons have "dropWhile (\<lambda>c. c = 45) (sub_runs (\<lambda>c. \<not> url_allowed c) cs)
          = sub_runs (\<lambda>c. \<not> url_allowed c) (dropWhile (\<lambda>c. \<not> alnum c) cs)"
        by simp
      with 2 na Cons show ?thesis by (simp add: url_allowed_def)
    next
      case 3
      then have na: "\<not> alnum c" using url_allowed_alnum by blast
      let ?r = "dropWhile (\<lambda>c. \<not> url_allowed c) cs"
      have "length ?r < length xs" using Cons by (simp add: length_dropWhile_le less_Suc_eq_le)
      with 1 have "dropWhile (\<lambda>c. c = 45) (sub_runs (\<lambda>c. \<not> url_allowed c) ?r)
          = sub_runs (\<lambda>c. \<not> url_allowed c) (dropWhile (\<lambda>c. \<not> alnum c) ?r)"
        by blast
      moreover have "dropWhile (\<lambda>c. \<not> alnum c) ?r = dropWhile (\<lambda>c. \<not> alnum c) cs"
        by (rule dropWhile_dropWhile_imp) (simp add: url_allowed_alnum)
      ultimately show ?thesis using 3 na Cons by simp
    qed
  qed
qed

lemma sub_runs_twice:
  "sub_runs (\<lambda>c. c = 45) (sub_runs (\<lambda>c. \<not> url_allowed c) s) = sub_runs (\<lambda>c. \<not> alnum c) s"
proof (induction "\<lambda>c. \<not> alnum c" s rule: sub_runs.induct)
  case 1
  then show ?case by simp
next
  case (2 c cs)
  consider "alnum c" | "c = 45" | "\<not> url_allowed c"
    using url_allowed_alnum by blast
  then show ?case
  proof cases
    case 1
    with 2 show ?thesis by (simp add: url_allowed_alnum alnum_not_hyphen)
  next
    case 2
    then have na: "\<not> alnum c" using alnum_not_hyphen by blast
    from 2 "2.prems" na
    have "sub_runs (\<lambda>c. c = 45) (sub_runs (\<lambda>c. \<not> url_allowed c) (dropWhile (\<lambda>c. \<not> alnum c) cs))
        = sub_runs (\<lambda>c. \<not> alnum c) (dropWhile (\<lambda>c. \<not> alnum c) cs)"
      using "2.hyps"(1) by simp
    moreover from 2 have "url_allowed c" by (simp add: url_allowed_def)
    ultimately show ?thesis using 2 na by (simp add: lstrip_sub_runs)
  next
    case 3
    then have na: "\<not> alnum c" using url_allowed_alnum by blast
    let ?r = "dropWhile (\<lambda>c. \<not> url_allowed c) cs"
    have r: "dropWhile (\<lambda>c. \<not> alnum c) ?r = dropWhile (\<lambda>c. \<not> alnum c) cs"
      by (rule dropWhile_dropWhile_imp) (simp add: url_allowed_alnum)
    from na have "sub_runs (\<lambda>c. c = 45) (sub_runs (\<lambda>c. \<not> url_allowed c) (dropWhile (\<lambda>c. \<not> alnum c) cs))
        = sub_runs (\<lambda>c. \<not> alnum c) (dropWhile (\<lambda>c. \<not> alnum c) cs)"
      using "2.hyps"(1) by simp
    with 3 na r show ?thesis by (simp add: lstrip_sub_runs)
  qed
qed

lemma lstrip_sub_runs_sep:
  "dropWhile (\<lambda>c. c = 45) (sub_runs (\<lambda>c. \<not> alnum c) s)
     = sub_runs (\<lambda>c. \<not> alnum c) (dropWhile (\<lambda>c. \<not> alnum c) s)"
proof (induction "\<lambda>c. \<not> alnum c" s rule: sub_runs.induct)
  case 1
  then show ?case by simp
next
  case (2 c cs)
  show ?case
  proof (cases "alnum c")
    case True
    then show ?thesis by (simp add: alnum_not_hyphen)
  next
    case False
    have "dropWhile (\<lambda>c. \<not> alnum c) (dropWhile (\<lambda>c. \<not> alnum c) cs)
        = dropWhile (\<lambda>c. \<not> alnum c) cs"
      by (rule dropWhile_dropWhile_imp) simp
    with False "2.hyps"(1) show ?thesis by simp
  qed
qed

lemma alnum_words_dropWhile:
  "alnum_words (dropWhile (\<lambda>c. \<not> alnum c) s) = alnum_words s"
  by (induction s) auto

lemma sub_runs_alnum_prefix:
  "\<forall>x \<in> set w. alnum x \<Longrightarrow> sub_runs (\<lambda>c. \<not> alnum c) (w @ r) = w @ sub_runs (\<lambda>c. \<not> alnum c) r"
  by (induction w) auto

lemma rstrip_append:
  "dropWhile P (rev ys) \<noteq> [] \<Longrightarrow>
   rev (dropWhile P (rev (xs @ ys))) = xs @ rev (dropWhile P (rev ys))"
proof -
  assume "dropWhile P (rev ys) \<noteq> []"
  then obtain x where "x \<in> set (rev ys)" "\<not> P x"
    by (auto simp: dropWhile_eq_Nil_conv)
  then have "dropWhile P (rev ys @ rev xs) = dropWhile P (rev ys) @ rev xs"
    by (rule dropWhile_append1)
  then show ?thesis by simp
qed

lemma rstrip_id: "xs \<noteq> [] \<Longrightarrow> \<not> P (last xs) \<Longrightarrow> rev (dropWhile P (rev xs)) = xs"
proof -
  assume "xs \<noteq> []" and nl: "\<not> P (last xs)"
  then obtain ys y where xs: "xs = ys @ [y]" by (cases xs rule: rev_cases) auto
  with nl have "\<not> P y" by simp
  then have "dropWhile P (rev xs) = rev xs" by (simp add: xs)
  then show ?thesis by simp
qed

lemma alnum_words_nonempty: "w \<in> set (alnum_words s) \<Longrightarrow> w \<noteq> []"
  by (induction s rule: alnum_words.induct) (auto split: if_splits)

lemma join_hyphen_Cons:
  "ws \<noteq> [] \<Longrightarrow> join_hyphen (w # ws) = w @ 45 # join_hyphen ws"
  by (cases ws) auto

lemma join_hyphen_nonempty:
  "ws \<noteq> [] \<Longrightarrow> \<forall>w \<in> set ws. w \<noteq> [] \<Longrightarrow> join_hyphen ws \<noteq> []"
  by (cases ws rule: join_hyphen.cases) auto

lemma rstrip_sub_runs_words:
  "s = [] \<or> alnum (hd s) \<Longrightarrow>
   rev (dropWhile (\<lambda>c. c = 45) (rev (sub_runs (\<lambda>c. \<not> alnum c) s)))
     = join_hyphen (alnum_words s)"
proof (induction s rule: length_induct)
  case (1 s)
  show ?case
  proof (cases s)
    case Nil
    then show ?thesis by simp
  next
    case (Cons c cs)
    with "1.prems" have c: "alnum c" by simp
    let ?w = "c # takeWhile alnum cs"
    let ?r = "dropWhile alnum cs"
    let ?r' = "dropWhile (\<lambda>c. \<not> alnum c) ?r"
    let ?S = "sub_runs (\<lambda>c. \<not> alnum c)"
    have s: "s = ?w @ ?r" using Cons by simp
    have w: "\<forall>x \<in> set ?w. alnum x" using c by (auto dest: set_takeWhileD)
    have Ss: "?S s = ?w @ ?S ?r"
      by (subst s) (rule sub_runs_alnum_prefix[OF w])
    have words: "alnum_words s = ?w # alnum_words ?r'"
      using Cons c by (simp add: alnum_words_dropWhile)
    have "last ?w \<in> set ?w" by (rule last_in_set) simp
    with w have "alnum (last ?w)" by blast
    then have lastw: "last ?w \<noteq> 45" by (rule alnum_not_hyphen)
    have wid: "rev (dropWhile (\<lambda>c. c = 45) (rev ?w)) = ?w"
      by (rule rstrip_id) (use lastw in simp_all)
    show ?thesis
    proof (cases "?r = []")
      case True
      have "?S s = ?w" using Ss[unfolded True] by simp
      moreover have "alnum_words s = [?w]" using words[unfolded True] by simp
      ultimately show ?thesis using wid by (simp only: join_hyphen.simps)
    next
      case False
      then have sep: "\<not> alnum (hd ?r)" by (rule hd_dropWhile)
      from False obtain x xs where r: "?r = x # xs" by (cases ?r) auto
      with sep have x: "\<not> alnum x" by simp
      have r': "?r' = dropWhile (\<lambda>c. \<not> alnum c) xs" using r x by simp
      have Sr: "?S ?r = 45 # ?S ?r'" using r x r' by simp
      show ?thesis
      proof (cases "?r' = []")
        case True
        have "?S ?r = [45]" using Sr[unfolded True] by simp
        then have "?S s = ?w @ [45]" using Ss by (simp only:)
        then have "rev (dropWhile (\<lambda>c. c = 45) (rev (?S s)))
            = rev (dropWhile (\<lambda>c. c = 45) (rev ?w))"
          by simp
        moreover have "alnum_words s = [?w]" using words[unfolded True] by simp
        ultimately show ?thesis using wid by (simp only: join_hyphen.simps)
      next
        case nonempty: False
        then have hd': "alnum (hd ?r')" using hd_dropWhile[of "\<lambda>c. \<not> alnum c" ?r] by simp
        have "length ?r' \<le> length ?r" by (rule length_dropWhile_le)
        also have "\<dots> \<le> length cs" by (rule length_dropWhile_le)
        finally have "length ?r' < length s" using Cons by simp
        with "1.IH" hd' have IH: "rev (dropWhile (\<lambda>c. c = 45) (rev (?S ?r')))
            = join_hyphen (alnum_words ?r')"
          by blast
        from nonempty hd' have wne: "alnum_words ?r' \<noteq> []"
          by (cases ?r') auto
        then have jne: "join_hyphen (alnum_words ?r') \<noteq> []"
          by (rule join_hyphen_nonempty) (simp add: alnum_words_nonempty)
        have ne: "rev (dropWhile (\<lambda>c. c = 45) (rev (?S ?r'))) \<noteq> []"
          unfolding IH by (rule jne)
        have "dropWhile (\<lambda>c. c = 45) (rev (?S ?r')) \<noteq> []"
        proof
          assume "dropWhile (\<lambda>c. c = 45) (rev (?S ?r')) = []"
          then have "rev (dropWhile (\<lambda>c. c = 45) (rev (?S ?r'))) = []"
            by (simp only: rev.simps)
          with ne show False by contradiction
        qed
        from rstrip_append[OF this, of "?w @ [45]"]
        have "rev (dropWhile (\<lambda>c. c = 45) (rev (?S s)))
            = ?w @ 45 # rev (dropWhile (\<lambda>c. c = 45) (rev (?S ?r')))"
          using Ss Sr by simp
        with IH words wne show ?thesis by (simp add: join_hyphen_Cons)
      qed
    qed
  qed
qed

lemma addUrl_url_words: "addUrl_url lower category = join_hyphen (alnum_words (lower category))"
proof -
  let ?s = "lower category"
  let ?d = "dropWhile (\<lambda>c. \<not> alnum c) ?s"
  have d: "?d = [] \<or> alnum (hd ?d)" using hd_dropWhile[of "\<lambda>c. \<not> alnum c" ?s] by blast
  have "addUrl_url lower category = strip 45 (sub_runs (\<lambda>c. \<not> alnum c) ?s)"
    by (simp add: addUrl_url_def Let_def sub_runs_twice)
  also have "\<dots> = rev (dropWhile (\<lambda>c. c = 45) (rev (sub_runs (\<lambda>c. \<not> alnum c) ?d)))"
    by (simp add: strip_def lstrip_sub_runs_sep)
  also have "\<dots> = join_hyphen (alnum_words ?d)"
    by (rule rstrip_sub_runs_words[OF d])
  finally show ?thesis by (simp add: alnum_words_dropWhile)
qed


lemma map_of_addUrl:
  "map_of (addUrl lower tempDict) category
     = map_option (\<lambda>values. values\<lparr>url := addUrl_url lower category\<rparr>) (map_of tempDict category)"
  by (induction tempDict) (auto simp: addUrl_def)

lemma keys_addUrl: "map fst (addUrl lower tempDict) = map fst tempDict"
  by (induction tempDict) (auto simp: addUrl_def)

lemma ascii_lower_no_capital: "no_ascii_capital (ascii_lower s)"
  by (induction s) (auto simp: no_ascii_capital_def ascii_lower_def)

lemma addUrl_url_example:
  "addUrl_url ascii_lower (ustr ''Hello,  World-Wide--Web!'') = ustr ''hello-world-wide-web''"
  by code_simp

text \<open>
  C7. \<open>addUrl\<close> keeps every category, in order, and changes of its entry only the
  url: a category with the entry \<open>values\<close> has afterwards \<open>values\<close> with the url of
  its name, and a name without an entry still has none. That url is the result of the
  three steps of the code (every maximal run of characters outside \<open>[A-Za-z0-9-]\<close>
  of the lowercased name replaced by a hyphen, runs of hyphens collapsed, hyphens at
  both ends stripped), which is the same as the maximal runs of ASCII letters and
  digits of the lowercased name joined by single hyphens. As the lowercased name holds
  no ASCII capital, the url is a slug: lowercase letters, digits and hyphens only, no
  two hyphens adjacent, none at either end.
\<close>

theorem addUrl_slug:
  "map fst (addUrl lower tempDict) = map fst tempDict
   \<and> map_of (addUrl lower tempDict) category
       = map_option
           (\<lambda>values. values\<lparr>url := join_hyphen (alnum_words (lower category))\<rparr>)
           (map_of tempDict category)
   \<and> join_hyphen (alnum_words (lower category))
       = strip 45 (sub_runs (\<lambda>c. c = 45) (sub_runs (\<lambda>c. \<not> url_allowed c) (lower category)))
   \<and> (no_ascii_capital (lower category)
        \<longrightarrow> url_safe (join_hyphen (alnum_words (lower category))))"
proof (intro conjI impI)
  show "map fst (addUrl lower tempDict) = map fst tempDict" by (rule keys_addUrl)
  show "map_of (addUrl lower tempDict) category
       = map_option
           (\<lambda>values. values\<lparr>url := join_hyphen (alnum_words (lower category))\<rparr>)
           (map_of tempDict category)"
    by (simp add: map_of_addUrl addUrl_url_words)
  show "join_hyphen (alnum_words (lower category))
       = strip 45 (sub_runs (\<lambda>c. c = 45) (sub_runs (\<lambda>c. \<not> url_allowed c) (lower category)))"
    using addUrl_url_words[of lower category] by (simp add: addUrl_url_def Let_def)
  assume "no_ascii_capital (lower category)"
  then have "url_safe (addUrl_url lower category)" by (rule url_safe_addUrl_url)
  then show "url_safe (join_hyphen (alnum_words (lower category)))"
    by (simp add: addUrl_url_words)
qed

theorem addUrl_slug_witness:
  "map_of
     (addUrl ascii_lower
        [(ustr ''Hello,  World-Wide--Web!'', new_category (ustr ''Hello,  World-Wide--Web!''))])
     (ustr ''Hello,  World-Wide--Web!'')
   = Some ((new_category (ustr ''Hello,  World-Wide--Web!''))
            \<lparr>url := ustr ''hello-world-wide-web''\<rparr>)
   \<and> url_safe (ustr ''hello-world-wide-web'')"
proof -
  let ?name = "ustr ''Hello,  World-Wide--Web!''"
  note t = addUrl_slug[of ascii_lower "[(?name, new_category ?name)]" ?name]
  have w: "join_hyphen (alnum_words (ascii_lower ?name)) = ustr ''hello-world-wide-web''"
    using addUrl_url_example by (simp only: addUrl_url_words)
  have "map_of (addUrl ascii_lower [(?name, new_category ?name)]) ?name
      = Some ((new_category ?name)\<lparr>url := ustr ''hello-world-wide-web''\<rparr>)"
    using t[THEN conjunct2, THEN conjunct1] by (simp add: w)
  moreover have "url_safe (ustr ''hello-world-wide-web'')"
    using t[THEN conjunct2, THEN conjunct2, THEN conjunct2] ascii_lower_no_capital[of ?name]
    by (simp only: w simp_thms)
  ultimately show ?thesis by (rule conjI)
qed

section \<open>Properties of convert_sets_to_lists\<close>

lemma update_append_fresh:
  "k \<notin> fst ` set pre \<Longrightarrow> AList.update k x (pre @ (k, v) # rest) = pre @ (k, x) # rest"
  by (induction pre) auto

lemma fold_update_distinct:
  "distinct (map fst (pre @ rest)) \<Longrightarrow>
   fold (\<lambda>(k, v) d. if c v then AList.update k (g v) d else d) rest (pre @ rest)
     = pre @ map (\<lambda>(k, v). (k, if c v then g v else v)) rest"
proof (induction rest arbitrary: pre)
  case Nil
  then show ?case by simp
next
  case (Cons kv rest)
  obtain k v where kv: "kv = (k, v)" by (cases kv)
  from Cons.prems kv have fresh: "k \<notin> fst ` set pre" by auto
  let ?v' = "if c v then g v else v"
  have step: "(if c v then AList.update k (g v) (pre @ (k, v) # rest) else pre @ (k, v) # rest)
      = (pre @ [(k, ?v')]) @ rest"
    using update_append_fresh[OF fresh] by simp
  have d: "distinct (map fst ((pre @ [(k, ?v')]) @ rest))"
    using Cons.prems kv by auto
  show ?case
    using Cons.IH[OF d] step by (simp add: kv)
qed

lemma spec_unchanged: "\<not> changed v \<Longrightarrow> sets_to_lists_spec v = v"
  by (cases v) (auto simp: changed_def)

lemma convert_dict_spec:
  "dict_wf (PDict data_dict) \<Longrightarrow>
   convert_dict data_dict = map (\<lambda>(k, v). (k, sets_to_lists_spec v)) data_dict"
proof (induction data_dict rule: convert_dict.induct)
  case (1 data_dict)
  have sub: "convert_dict sub = map (\<lambda>(k, v). (k, sets_to_lists_spec v)) sub"
    if "(key, PDict sub) \<in> set data_dict" for key sub
  proof -
    from "1.prems" have "\<forall>(k, v) \<in> set data_dict. dict_wf v" by simp
    with that have "dict_wf (PDict sub)" by blast
    with "1.IH" that show ?thesis by blast
  qed
  have body: "fold (\<lambda>(key, val) d.
             case val of
               PSet xs \<Rightarrow> AList.update key (PList xs) d
             | PList xs \<Rightarrow> d
             | PDict sub \<Rightarrow> AList.update key (PDict (convert_dict sub)) d
             | _ \<Rightarrow> d) data_dict data_dict
     = fold (\<lambda>(k, v) d. if changed v then AList.update k (sets_to_lists_spec v) d else d)
         data_dict data_dict"
  proof (rule fold_cong[OF refl refl])
    fix x assume x: "x \<in> set data_dict"
    obtain key val where kv: "x = (key, val)" by (cases x)
    show "(case x of (key, val) \<Rightarrow> \<lambda>d.
             case val of
               PSet xs \<Rightarrow> AList.update key (PList xs) d
             | PList xs \<Rightarrow> d
             | PDict sub \<Rightarrow> AList.update key (PDict (convert_dict sub)) d
             | _ \<Rightarrow> d)
       = (case x of (k, v) \<Rightarrow> \<lambda>d. if changed v then AList.update k (sets_to_lists_spec v) d else d)"
      using sub x kv by (cases val) (auto simp: changed_def)
  qed
  from "1.prems" have "distinct (map fst ([] @ data_dict))" by simp
  from fold_update_distinct[OF this, of changed sets_to_lists_spec]
  have "fold (\<lambda>(k, v) d. if changed v then AList.update k (sets_to_lists_spec v) d else d)
         data_dict data_dict
      = map (\<lambda>(k, v). (k, if changed v then sets_to_lists_spec v else v)) data_dict"
    by simp
  also have "\<dots> = map (\<lambda>(k, v). (k, sets_to_lists_spec v)) data_dict"
    by (rule map_cong[OF refl]) (auto simp: spec_unchanged)
  finally show ?case using body by (simp del: convert_dict.simps add: convert_dict.simps[of data_dict])
qed

lemma spec_not_set: "sets_to_lists_spec v \<noteq> PSet xs"
  by (cases v) auto

lemma set_free_spec: "set_free (sets_to_lists_spec v)"
proof (induction v rule: sets_to_lists_spec.induct)
  case (2 kvs)
  have "(case sets_to_lists_spec v of PSet xs \<Rightarrow> False | _ \<Rightarrow> True)
        \<and> set_free (sets_to_lists_spec v)"
    if "(k, v) \<in> set kvs" for k v
    using 2[OF that refl] spec_not_set[of v] by (cases "sets_to_lists_spec v") auto
  then show ?case by auto
qed simp_all

text \<open>
  C10. For a dictionary (each key once, at every depth), \<open>convert_sets_to_lists\<close>
  returns the dictionary with the same keys in the same order in which every value that
  is a set, at the top or in a nested dictionary at any depth, has become the list of
  its elements; nested dictionaries are converted likewise; a value that is a list is
  left as it is, sets inside it included; every other value is unchanged. No set
  remains as a value of the result or of a dictionary nested in it.
\<close>

theorem convert_sets_to_lists_refines:
  assumes "dict_wf (PDict data_dict)"
  shows "convert_sets_to_lists (PDict data_dict) = Inr (sets_to_lists_spec (PDict data_dict))
         \<and> set_free (sets_to_lists_spec (PDict data_dict))
         \<and> (\<exists>r. sets_to_lists_spec (PDict data_dict) = PDict r \<and> map fst r = map fst data_dict)"
  using convert_dict_spec[OF assms] set_free_spec[of "PDict data_dict"]
  by (simp add: convert_sets_to_lists_def comp_def case_prod_unfold del: convert_dict.simps)

theorem convert_sets_to_lists_refines_witness:
  "convert_sets_to_lists
     (PDict [(PStr ''a'', PSet [PInt 1, PInt 2]),
             (PStr ''b'', PList [PSet [PInt 3]]),
             (PStr ''c'', PDict [(PStr ''d'', PSet []), (PStr ''e'', PTuple [PSet []])]),
             (PStr ''f'', PInt 5)])
   = Inr (PDict [(PStr ''a'', PList [PInt 1, PInt 2]),
             (PStr ''b'', PList [PSet [PInt 3]]),
             (PStr ''c'', PDict [(PStr ''d'', PList []), (PStr ''e'', PTuple [PSet []])]),
             (PStr ''f'', PInt 5)])"
proof -
  have "dict_wf (PDict [(PStr ''a'', PSet [PInt 1, PInt 2]),
             (PStr ''b'', PList [PSet [PInt 3]]),
             (PStr ''c'', PDict [(PStr ''d'', PSet []), (PStr ''e'', PTuple [PSet []])]),
             (PStr ''f'', PInt 5)])"
    by simp
  from convert_sets_to_lists_refines[OF this] show ?thesis by simp
qed


section \<open>Properties of run_orchestrator\<close>


lemma invoke_fst: "fst (invoke c f ls) = fst ls @ [c]"
  by (simp add: invoke_def)

lemma invoke_snd: "snd (invoke c f ls) = f (snd ls)"
  by (simp add: invoke_def)

lemma refine_members_log:
  "fst (refine_members co category nv ms ls) = fst ls @ map (RefineFacultyStats category) ms"
  by (induction ms arbitrary: ls) (simp_all add: invoke_fst)

lemma refine_categories_log:
  "\<exists>rest. fst (fst (refine_categories co nv cats ls)) = fst ls @ rest
          \<and> list_all refine_or_save rest"
proof (induction cats arbitrary: ls)
  case Nil
  then show ?case by simp
next
  case (Cons category cats)
  show ?case
  proof (cases "map_of (snd ls) category")
    case None
    then show ?thesis by simp
  next
    case (Some cfs)
    let ?refined = "refine_members co category nv (map fst cfs) (fst ls, cfs)"
    let ?ls' = "(fst ?refined, AList.update category (snd ?refined) (snd ls))"
    from Cons.IH[of ?ls'] obtain rest where
      r: "fst (fst (refine_categories co nv cats ?ls')) = fst ?ls' @ rest"
         "list_all refine_or_save rest"
      by blast
    have "fst ?ls' = fst ls @ map (RefineFacultyStats category) (map fst cfs)"
      by (simp add: refine_members_log)
    with r Some show ?thesis
      by (intro exI[of _ "map (RefineFacultyStats category) (map fst cfs) @ rest"])
         (auto simp: Let_def list_all_iff)
  qed
qed

lemma refine_faculty_sets_log:
  "fst (refine_faculty_sets co ls)
     = fst ls @ [RemoveNearDuplicates, UpdateFacultyCount, UpdateDepartmentCount]"
  by (simp add: refine_faculty_sets_def invoke_fst)

lemma run_orchestrator_log:
  "\<exists>rest. fst (fst (run_orchestrator co s))
            = [ProcessDataList, RemoveNearDuplicates, UpdateFacultyCount, UpdateDepartmentCount]
              @ rest
          \<and> list_all refine_or_save rest"
proof -
  let ?processed = "invoke ProcessDataList (process_data_list co (data s)) ([], s)"
  let ?sets = "refine_faculty_sets co ?processed"
  let ?s2 = "snd ?sets"
  let ?stats = "refine_faculty_stats co (faculty_stats ?s2) (name_variations ?s2)
                            (category_data ?s2) (fst ?sets)"
  have l2: "fst ?sets
      = [ProcessDataList, RemoveNearDuplicates, UpdateFacultyCount, UpdateDepartmentCount]"
    by (simp add: refine_faculty_sets_log invoke_fst)
  from refine_categories_log[of co "name_variations ?s2" "map fst (category_data ?s2)"
      "(fst ?sets, faculty_stats ?s2)"]
  obtain rest where r: "fst (fst ?stats) = fst ?sets @ rest" "list_all refine_or_save rest"
    by (auto simp: refine_faculty_stats_def Let_def)
  show ?thesis
  proof (cases "snd ?stats")
    case None
    then have "fst (fst (run_orchestrator co s)) = fst (fst ?stats) @ [SaveAllResults]"
      by (simp add: run_orchestrator_def Let_def invoke_fst)
    with r l2 show ?thesis
      by (intro exI[of _ "rest @ [SaveAllResults]"]) simp
  next
    case (Some e)
    then have "fst (fst (run_orchestrator co s)) = fst (fst ?stats)"
      by (simp add: run_orchestrator_def Let_def)
    with r l2 show ?thesis
      by (intro exI[of _ rest]) simp
  qed
qed

lemma count_refine_or_save:
  "list_all refine_or_save rest \<Longrightarrow>
     count_list rest UpdateFacultyCount = 0 \<and> count_list rest UpdateDepartmentCount = 0
     \<and> count_list rest RemoveNearDuplicates = 0 \<and> count_list rest ProcessDataList = 0"
  by (induction rest) auto

lemma scenario_run:
  "run_orchestrator scenario_collaborators (empty_orchestrator scenario_data)
   = (([ProcessDataList, RemoveNearDuplicates, UpdateFacultyCount, UpdateDepartmentCount,
        RefineFacultyStats (ustr ''CS'') ''J. Smith'', RefineFacultyStats (ustr ''CS'') ''John Smith'',
        SaveAllResults],
       \<lparr>data = scenario_data,
        category_data =
          [(ustr ''CS'', \<lparr>url = ustr ''cs'', category_name = ustr ''CS'', faculty_count = 1,
                    department_count = 0, article_count = 2, tc_list = [5, 3],
                    doi_list = {|''a1'', ''a2''|}, faculty = {|''John Smith''|},
                    departments = {||}\<rparr>)],
        faculty_stats =
          [(ustr ''CS'', [(''John Smith'',
               \<lparr>total_citations = 8, faculty_article_count = 2,
                faculty_doi_list = {|''a1'', ''a2''|}\<rparr>)])],
        global_faculty_stats = [],
        vocabulary = {|''J. Smith'', ''John Smith''|},
        name_variations = [(''John Smith'', [''J. Smith''])],
        warnings = []\<rparr>), None)"
  by code_simp

lemma has_faculty_stats_None: "map_of fs c = None \<Longrightarrow> \<not> has_faculty_stats fs c"
  by (simp add: has_faculty_stats_def)

lemma has_faculty_stats_Some: "map_of fs c = Some x \<Longrightarrow> has_faculty_stats fs c"
  by (simp add: has_faculty_stats_def)

lemma faculty_members_of_Some: "map_of fs c = Some x \<Longrightarrow> faculty_members_of fs c = map fst x"
  by (simp add: faculty_members_of_def)

lemma has_faculty_stats_cong:
  "map_of fs' c = map_of fs c \<Longrightarrow>
   has_faculty_stats fs' c = has_faculty_stats fs c
   \<and> faculty_members_of fs' c = faculty_members_of fs c"
  by (simp add: has_faculty_stats_def faculty_members_of_def)

lemma expected_refinements_Cons:
  "expected_refinements fs (c # cats)
     = (if has_faculty_stats fs c
        then map (RefineFacultyStats c) (faculty_members_of fs c) @ expected_refinements fs cats
        else [])"
  by (simp add: expected_refinements_def)

lemma expected_refinements_cong:
  "\<forall>c \<in> set cats. map_of fs' c = map_of fs c \<Longrightarrow>
   expected_refinements fs' cats = expected_refinements fs cats
   \<and> list_all (has_faculty_stats fs') cats = list_all (has_faculty_stats fs) cats"
proof (induction cats)
  case Nil
  then show ?case by (simp add: expected_refinements_def)
next
  case (Cons c cats)
  then have "expected_refinements fs' cats = expected_refinements fs cats"
    and "list_all (has_faculty_stats fs') cats = list_all (has_faculty_stats fs) cats"
    and "map_of fs' c = map_of fs c"
    by simp_all
  with has_faculty_stats_cong[of fs' c fs] show ?case
    by (simp add: expected_refinements_Cons)
qed

lemma refine_categories_exact:
  "distinct cats \<Longrightarrow>
   fst (fst (refine_categories co nv cats (log, fs))) = log @ expected_refinements fs cats
   \<and> snd (refine_categories co nv cats (log, fs))
       = (if list_all (has_faculty_stats fs) cats then None else Some KeyError)"
proof (induction cats arbitrary: log fs)
  case Nil
  then show ?case by (simp add: expected_refinements_def)
next
  case (Cons c cats)
  show ?case
  proof (cases "map_of fs c")
    case None
    then show ?thesis
      by (simp add: expected_refinements_Cons has_faculty_stats_None)
  next
    case (Some cfs)
    let ?refined = "refine_members co c nv (map fst cfs) (log, cfs)"
    let ?fs' = "AList.update c (snd ?refined) fs"
    have step: "refine_categories co nv (c # cats) (log, fs)
        = refine_categories co nv cats (fst ?refined, ?fs')"
      using Some by (simp add: Let_def)
    have log': "fst ?refined = log @ map (RefineFacultyStats c) (map fst cfs)"
      by (simp add: refine_members_log)
    from Cons.prems have "c \<notin> set cats" "distinct cats" by simp_all
    then have same: "\<forall>c' \<in> set cats. map_of ?fs' c' = map_of fs c'"
      by (auto simp: update_conv')
    from Cons.IH[OF \<open>distinct cats\<close>, of "fst ?refined" ?fs']
      expected_refinements_cong[OF same]
    have "fst (fst (refine_categories co nv cats (fst ?refined, ?fs')))
          = fst ?refined @ expected_refinements fs cats"
      and "snd (refine_categories co nv cats (fst ?refined, ?fs'))
          = (if list_all (has_faculty_stats fs) cats then None else Some KeyError)"
      by simp_all
    with step log' has_faculty_stats_Some[OF Some] faculty_members_of_Some[OF Some]
    show ?thesis
      by (simp add: expected_refinements_Cons)
  qed
qed

lemma run_orchestrator_exact:
  assumes "distinct (map fst (category_data (after_recompute co s)))"
  shows "fst (fst (run_orchestrator co s))
           = [ProcessDataList, RemoveNearDuplicates, UpdateFacultyCount, UpdateDepartmentCount]
             @ expected_refinements (faculty_stats (after_recompute co s))
                 (map fst (category_data (after_recompute co s)))
             @ (if list_all (has_faculty_stats (faculty_stats (after_recompute co s)))
                     (map fst (category_data (after_recompute co s)))
                then [SaveAllResults] else [])
         \<and> snd (run_orchestrator co s)
           = (if list_all (has_faculty_stats (faculty_stats (after_recompute co s)))
                   (map fst (category_data (after_recompute co s)))
              then None else Some KeyError)"
proof -
  let ?processed = "invoke ProcessDataList (process_data_list co (data s)) ([], s)"
  let ?sets = "refine_faculty_sets co ?processed"
  let ?s2 = "snd ?sets"
  let ?stats = "refine_faculty_stats co (faculty_stats ?s2) (name_variations ?s2)
                            (category_data ?s2) (fst ?sets)"
  have s2: "?s2 = after_recompute co s"
    by (simp add: refine_faculty_sets_def invoke_snd after_recompute_def)
  have l2: "fst ?sets
      = [ProcessDataList, RemoveNearDuplicates, UpdateFacultyCount, UpdateDepartmentCount]"
    by (simp add: refine_faculty_sets_log invoke_fst)
  from assms s2 have d: "distinct (map fst (category_data ?s2))" by simp
  from refine_categories_exact[OF d, of co "name_variations ?s2" "fst ?sets" "faculty_stats ?s2"]
  have log: "fst (fst ?stats) = fst ?sets
                @ expected_refinements (faculty_stats ?s2) (map fst (category_data ?s2))"
    and err: "snd ?stats
        = (if list_all (has_faculty_stats (faculty_stats ?s2)) (map fst (category_data ?s2))
           then None else Some KeyError)"
    by (simp_all add: refine_faculty_stats_def Let_def)
  show ?thesis
  proof (cases "list_all (has_faculty_stats (faculty_stats ?s2)) (map fst (category_data ?s2))")
    case True
    with err have "snd ?stats = None" by simp
    then have "fst (fst (run_orchestrator co s)) = fst (fst ?stats) @ [SaveAllResults]"
      and "snd (run_orchestrator co s) = None"
      by (simp_all add: run_orchestrator_def Let_def invoke_fst)
    with log l2 True show ?thesis unfolding s2[symmetric] by simp
  next
    case False
    with err have "snd ?stats = Some KeyError" by simp
    then have "fst (fst (run_orchestrator co s)) = fst (fst ?stats)"
      and "snd (run_orchestrator co s) = Some KeyError"
      by (simp_all add: run_orchestrator_def Let_def)
    with log l2 False show ?thesis unfolding s2[symmetric] by simp
  qed
qed

text \<open>
  C2, as amended. Whatever the collaborators do, \<open>run_orchestrator\<close> calls
  \<open>process_data_list\<close>, then \<open>remove_near_duplicates\<close>, then \<open>update_faculty_count\<close>
  and \<open>update_department_count\<close>, and after these only
  \<open>FacultyStats.refine_faculty_stats\<close> and the save: the counts are recomputed
  exactly once, after the near-duplicate removal and before the faculty statistics
  are refined. With each category once in the category data, as in every dictionary,
  the calls that follow are exactly these: for each category in order, one
  refinement for each faculty name that its faculty statistics held when the loops
  began, and then the save; if some category has no faculty statistics, the run stops
  at the first such category with KeyError, after the refinements of the categories
  before it and without the save.
\<close>

theorem run_orchestrator_call_order:
  "(\<exists>rest. fst (fst (run_orchestrator co s))
            = [ProcessDataList, RemoveNearDuplicates, UpdateFacultyCount, UpdateDepartmentCount]
              @ rest
          \<and> list_all refine_or_save rest
          \<and> count_list (fst (fst (run_orchestrator co s))) UpdateFacultyCount = 1
          \<and> count_list (fst (fst (run_orchestrator co s))) UpdateDepartmentCount = 1)
   \<and> (distinct (map fst (category_data (after_recompute co s))) \<longrightarrow>
        fst (fst (run_orchestrator co s))
          = [ProcessDataList, RemoveNearDuplicates, UpdateFacultyCount, UpdateDepartmentCount]
            @ expected_refinements (faculty_stats (after_recompute co s))
                (map fst (category_data (after_recompute co s)))
            @ (if list_all (has_faculty_stats (faculty_stats (after_recompute co s)))
                    (map fst (category_data (after_recompute co s)))
               then [SaveAllResults] else [])
        \<and> snd (run_orchestrator co s)
          = (if list_all (has_faculty_stats (faculty_stats (after_recompute co s)))
                  (map fst (category_data (after_recompute co s)))
             then None else Some KeyError))"
proof (intro conjI impI)
  from run_orchestrator_log[of co s] obtain rest where
    r: "fst (fst (run_orchestrator co s))
          = [ProcessDataList, RemoveNearDuplicates, UpdateFacultyCount, UpdateDepartmentCount]
            @ rest"
       "list_all refine_or_save rest"
    by blast
  from count_refine_or_save[OF r(2)] r(1)
  have "count_list (fst (fst (run_orchestrator co s))) UpdateFacultyCount = 1"
       "count_list (fst (fst (run_orchestrator co s))) UpdateDepartmentCount = 1"
    by simp_all
  with r show "\<exists>rest. fst (fst (run_orchestrator co s))
            = [ProcessDataList, RemoveNearDuplicates, UpdateFacultyCount, UpdateDepartmentCount]
              @ rest
          \<and> list_all refine_or_save rest
          \<and> count_list (fst (fst (run_orchestrator co s))) UpdateFacultyCount = 1
          \<and> count_list (fst (fst (run_orchestrator co s))) UpdateDepartmentCount = 1"
    by blast
next
  assume d: "distinct (map fst (category_data (after_recompute co s)))"
  from run_orchestrator_exact[OF d]
  show "fst (fst (run_orchestrator co s))
          = [ProcessDataList, RemoveNearDuplicates, UpdateFacultyCount, UpdateDepartmentCount]
            @ expected_refinements (faculty_stats (after_recompute co s))
                (map fst (category_data (after_recompute co s)))
            @ (if list_all (has_faculty_stats (faculty_stats (after_recompute co s)))
                    (map fst (category_data (after_recompute co s)))
               then [SaveAllResults] else [])"
    by (rule conjunct1)
  from run_orchestrator_exact[OF d]
  show "snd (run_orchestrator co s)
          = (if list_all (has_faculty_stats (faculty_stats (after_recompute co s)))
                  (map fst (category_data (after_recompute co s)))
             then None else Some KeyError)"
    by (rule conjunct2)
qed

theorem run_orchestrator_call_order_witness:
  "snd (run_orchestrator scenario_collaborators (empty_orchestrator scenario_data)) = None
   \<and> expected_refinements
         (faculty_stats
            (after_recompute scenario_collaborators (empty_orchestrator scenario_data)))
         (map fst
            (category_data
               (after_recompute scenario_collaborators (empty_orchestrator scenario_data))))
       = [RefineFacultyStats (ustr ''CS'') ''J. Smith'',
          RefineFacultyStats (ustr ''CS'') ''John Smith'']"
proof -
  let ?s2 = "after_recompute scenario_collaborators (empty_orchestrator scenario_data)"
  have d: "distinct (map fst (category_data ?s2))"
    by code_simp
  have a: "list_all (has_faculty_stats (faculty_stats ?s2)) (map fst (category_data ?s2))"
    by code_simp
  have e: "expected_refinements (faculty_stats ?s2) (map fst (category_data ?s2))
      = [RefineFacultyStats (ustr ''CS'') ''J. Smith'',
         RefineFacultyStats (ustr ''CS'') ''John Smith'']"
    by code_simp
  from run_orchestrator_call_order[THEN conjunct2, rule_format, OF d, THEN conjunct2]
  have "snd (run_orchestrator scenario_collaborators (empty_orchestrator scenario_data)) = None"
    using a by (simp only: if_True)
  then show ?thesis using e by (rule conjI)
qed

text \<open>
  C2 as first stated has the counts recomputed twice, before the resolution and
  after the refinement. In the scenario the log shows one recompute, between the two.
\<close>

theorem run_orchestrator_recompute_once_counterexample:
  "fst (fst (run_orchestrator scenario_collaborators (empty_orchestrator scenario_data)))
     = [ProcessDataList, RemoveNearDuplicates, UpdateFacultyCount, UpdateDepartmentCount,
        RefineFacultyStats (ustr ''CS'') ''J. Smith'', RefineFacultyStats (ustr ''CS'') ''John Smith'',
        SaveAllResults]
   \<and> count_list
         (fst (fst (run_orchestrator scenario_collaborators (empty_orchestrator scenario_data))))
         UpdateFacultyCount \<noteq> 2"
  by (simp add: scenario_run)

















section \<open>Properties of refine_faculty_stats\<close>



lemma canonical_name_fixed:
  assumes "canonical_fixed nv"
  shows "canonical_name nv (canonical_name nv name) = canonical_name nv name"
proof (cases "find (\<lambda>(canonical, variants). name = canonical \<or> name \<in> set variants) nv")
  case None
  then show ?thesis by (simp add: canonical_name_def)
next
  case (Some g)
  obtain c vs where g: "g = (c, vs)" by (cases g)
  from Some g have "(c, vs) \<in> set nv"
    by (auto simp: find_Some_iff in_set_conv_nth)
  with assms have "canonical_name nv c = c"
    by (auto simp: canonical_fixed_def list_all_iff)
  moreover from Some g have "canonical_name nv name = c"
    by (simp add: canonical_name_def)
  ultimately show ?thesis by simp
qed

lemma Refiner_fixed: "canonical_name nv name = name \<Longrightarrow> Refiner_refine_faculty_stats name nv fs = fs"
  by (simp add: Refiner_refine_faculty_stats_def)

lemma keys_Refiner:
  "fst ` set (Refiner_refine_faculty_stats name nv fs)
     \<subseteq> (if canonical_name nv name = name then fst ` set fs
        else (fst ` set fs - {name}) \<union> {canonical_name nv name})"
proof (cases "canonical_name nv name = name")
  case True
  then show ?thesis by (simp add: Refiner_fixed)
next
  case False
  show ?thesis
  proof (cases "map_of fs name")
    case None
    then have "name \<notin> fst ` set fs" by (simp add: map_of_eq_None_iff)
    with None False show ?thesis
      by (auto simp: Refiner_refine_faculty_stats_def Let_def)
  next
    case (Some vi)
    show ?thesis
    proof (cases "map_of fs (canonical_name nv name)")
      case None
      with Some False show ?thesis
        by (auto simp: Refiner_refine_faculty_stats_def Let_def image_iff split: if_splits)
    next
      case (Some ci)
      with \<open>map_of fs name = Some vi\<close> False show ?thesis
        by (auto simp: Refiner_refine_faculty_stats_def Let_def delete_keys update_keys
            simp flip: set_map)
    qed
  qed
qed


lemma refine_members_canonical:
  assumes "canonical_fixed nv"
    and "member_refine_faculty_stats co = Refiner_refine_faculty_stats"
    and "\<forall>k \<in> fst ` set (snd ls). canonical_name nv k = k \<or> k \<in> set ms"
  shows "all_canonical nv (snd (refine_members co category nv ms ls))"
  using assms(3)
proof (induction ms arbitrary: ls)
  case Nil
  then show ?case by (auto simp: all_canonical_def list_all_iff)
next
  case (Cons m ms)
  let ?ls' = "invoke (RefineFacultyStats category m) (member_refine_faculty_stats co m nv) ls"
  have snd': "snd ?ls' = Refiner_refine_faculty_stats m nv (snd ls)"
    by (simp add: invoke_def assms(2))
  have "\<forall>k \<in> fst ` set (snd ?ls'). canonical_name nv k = k \<or> k \<in> set ms"
  proof
    fix k assume "k \<in> fst ` set (snd ?ls')"
    with keys_Refiner[of m nv "snd ls"] snd'
    have k: "k \<in> (if canonical_name nv m = m then fst ` set (snd ls)
        else (fst ` set (snd ls) - {m}) \<union> {canonical_name nv m})"
      by auto
    show "canonical_name nv k = k \<or> k \<in> set ms"
    proof (cases "canonical_name nv m = m")
      case True
      with k Cons.prems show ?thesis by auto
    next
      case False
      with k have "k = canonical_name nv m \<or> (k \<in> fst ` set (snd ls) \<and> k \<noteq> m)" by auto
      then show ?thesis
        using canonical_name_fixed[OF assms(1), of m] Cons.prems by auto
    qed
  qed
  from Cons.IH[OF this] show ?case by simp
qed

lemma refine_members_identity:
  assumes "member_refine_faculty_stats co = Refiner_refine_faculty_stats"
    and "\<forall>m \<in> set ms. canonical_name nv m = m"
  shows "snd (refine_members co category nv ms ls) = snd ls"
  using assms(2)
proof (induction ms arbitrary: ls)
  case Nil
  then show ?case by simp
next
  case (Cons m ms)
  then show ?case by (simp add: invoke_def assms(1) Refiner_fixed)
qed

lemma update_same: "map_of xs k = Some v \<Longrightarrow> AList.update k v xs = xs"
  by (induction xs) (auto split: if_splits)

lemma refine_categories_keeps:
  assumes "member_refine_faculty_stats co = Refiner_refine_faculty_stats"
    and "map_of (snd ls) c = Some x" and "all_canonical nv x"
  shows "map_of (snd (fst (refine_categories co nv cats ls))) c = Some x"
  using assms(2)
proof (induction cats arbitrary: ls)
  case Nil
  then show ?case by simp
next
  case (Cons category cats)
  show ?case
  proof (cases "map_of (snd ls) category")
    case None
    with Cons.prems show ?thesis by simp
  next
    case (Some cfs)
    let ?refined = "refine_members co category nv (map fst cfs) (fst ls, cfs)"
    let ?ls' = "(fst ?refined, AList.update category (snd ?refined) (snd ls))"
    have "map_of (snd ?ls') c = Some x"
    proof (cases "category = c")
      case True
      with Some Cons.prems have "cfs = x" by simp
      with assms(3) have "\<forall>m \<in> set (map fst cfs). canonical_name nv m = m"
        by (auto simp: all_canonical_def list_all_iff)
      from refine_members_identity[OF assms(1) this] have "snd ?refined = cfs" by simp
      with True \<open>cfs = x\<close> show ?thesis by (simp add: update_conv')
    next
      case False
      with Cons.prems show ?thesis by (simp add: update_conv')
    qed
    from Cons.IH[OF this] Some show ?thesis by (simp add: Let_def)
  qed
qed

lemma refine_categories_idem:
  assumes "canonical_fixed nv"
    and "member_refine_faculty_stats co = Refiner_refine_faculty_stats"
  shows "snd (fst (refine_categories co nv cats
                 (log', snd (fst (refine_categories co nv cats ls)))))
           = snd (fst (refine_categories co nv cats ls))
         \<and> snd (refine_categories co nv cats
                 (log', snd (fst (refine_categories co nv cats ls))))
           = snd (refine_categories co nv cats ls)"
proof (induction cats arbitrary: ls log')
  case Nil
  then show ?case by simp
next
  case (Cons category cats)
  show ?case
  proof (cases "map_of (snd ls) category")
    case None
    then show ?thesis by simp
  next
    case (Some cfs)
    let ?refined = "refine_members co category nv (map fst cfs) (fst ls, cfs)"
    let ?ls' = "(fst ?refined, AList.update category (snd ?refined) (snd ls))"
    let ?F = "snd (fst (refine_categories co nv cats ?ls'))"
    have first: "refine_categories co nv (category # cats) ls = refine_categories co nv cats ?ls'"
      using Some by (simp add: Let_def)
    have can: "all_canonical nv (snd ?refined)"
      by (rule refine_members_canonical[OF assms]) simp
    have "map_of (snd ?ls') category = Some (snd ?refined)"
      by (simp add: update_conv')
    from refine_categories_keeps[OF assms(2) this can]
    have F: "map_of ?F category = Some (snd ?refined)" .
    from can have "\<forall>m \<in> set (map fst (snd ?refined)). canonical_name nv m = m"
      by (auto simp: all_canonical_def list_all_iff)
    from refine_members_identity[OF assms(2) this]
    have idm: "snd (refine_members co category nv (map fst (snd ?refined)) (log', snd ?refined))
        = snd ?refined"
      by simp
    let ?log2 = "fst (refine_members co category nv (map fst (snd ?refined)) (log', snd ?refined))"
    have second: "refine_categories co nv (category # cats) (log', ?F)
        = refine_categories co nv cats (?log2, ?F)"
      using F idm by (simp add: Let_def update_same)
    from Cons.IH[of ?log2 ?ls'] first second show ?thesis by simp
  qed
qed

text \<open>
  C4. With the Statistics Refiner of the specification for
  \<open>FacultyStats.refine_faculty_stats\<close> and a NameVariation mapping whose canonical
  names stand for themselves: applying \<open>refine_faculty_stats\<close> to the faculty
  statistics it has produced, with the same mapping and categories, returns them
  unchanged and ends as the first application did. The category data is only read,
  and the global statistics are no argument of the call.
\<close>

theorem refine_faculty_stats_idempotent:
  assumes "canonical_fixed nv"
    and "member_refine_faculty_stats co = Refiner_refine_faculty_stats"
  shows "snd (fst (refine_faculty_stats co
                     (snd (fst (refine_faculty_stats co fs nv category_dict log)))
                     nv category_dict log'))
           = snd (fst (refine_faculty_stats co fs nv category_dict log))
         \<and> snd (refine_faculty_stats co
                  (snd (fst (refine_faculty_stats co fs nv category_dict log)))
                  nv category_dict log')
           = snd (refine_faculty_stats co fs nv category_dict log)"
  using refine_categories_idem[OF assms, of "map fst category_dict" log' "(log, fs)"]
  by (simp add: refine_faculty_stats_def)

theorem refine_faculty_stats_idempotent_witness:
  "snd (fst (refine_faculty_stats scenario_collaborators
               [(ustr ''CS'', [(''John Smith'',
                   \<lparr>total_citations = 8, faculty_article_count = 2,
                    faculty_doi_list = {|''a1'', ''a2''|}\<rparr>)])]
               [(''John Smith'', [''J. Smith''])] [(ustr ''CS'', new_category (ustr ''CS''))] []))
     = [(ustr ''CS'', [(''John Smith'',
           \<lparr>total_citations = 8, faculty_article_count = 2,
            faculty_doi_list = {|''a1'', ''a2''|}\<rparr>)])]"
proof -
  let ?nv = "[(''John Smith'', [''J. Smith''])]"
  let ?fs = "[(ustr ''CS'', [(''J. Smith'',
                 \<lparr>total_citations = 5, faculty_article_count = 1,
                  faculty_doi_list = {|''a1''|}\<rparr>),
               (''John Smith'',
                 \<lparr>total_citations = 3, faculty_article_count = 1,
                  faculty_doi_list = {|''a2''|}\<rparr>)])]"
  have cf: "canonical_fixed ?nv"
    by (simp add: canonical_fixed_def canonical_name_def)
  have mr: "member_refine_faculty_stats scenario_collaborators = Refiner_refine_faculty_stats"
    by (simp add: scenario_collaborators_def)
  have once: "snd (fst (refine_faculty_stats scenario_collaborators ?fs ?nv
                          [(ustr ''CS'', new_category (ustr ''CS''))] []))
      = [(ustr ''CS'', [(''John Smith'',
           \<lparr>total_citations = 8, faculty_article_count = 2,
            faculty_doi_list = {|''a1'', ''a2''|}\<rparr>)])]"
    by code_simp
  from refine_faculty_stats_idempotent[OF cf mr, of ?fs "[(ustr ''CS'', new_category (ustr ''CS''))]" "[]" "[]"]
  show ?thesis unfolding once by (rule conjunct1)
qed


section \<open>Properties of the Category Aggregator\<close>


lemma process_category_skip:
  "holds_identifier ident category s \<Longrightarrow> process_category r ident category s = s"
  by (auto simp: holds_identifier_def process_category_def Let_def new_category_def
      split: option.splits)

lemma process_category_holds:
  "holds_identifier ident category (process_category r ident category s)"
  by (auto simp: holds_identifier_def process_category_def Let_def update_conv'
      new_category_def split: option.splits)

lemma process_category_keeps:
  "holds_identifier ident category s \<Longrightarrow>
   holds_identifier ident category (process_category r' ident' category' s)"
  by (auto simp: holds_identifier_def process_category_def Let_def update_conv'
      new_category_def split: option.splits)

lemma fold_process_category_keeps:
  "holds_identifier ident category s \<Longrightarrow>
   holds_identifier ident category (fold (process_category r' ident') cats s)"
  by (induction cats arbitrary: s) (simp_all add: process_category_keeps)

lemma fold_process_category_holds:
  "category \<in> set cats \<Longrightarrow>
   holds_identifier ident category (fold (process_category r ident) cats s)"
proof (induction cats arbitrary: s)
  case Nil
  then show ?case by simp
next
  case (Cons c cats)
  show ?case
  proof (cases "category = c")
    case True
    then show ?thesis
      by (simp add: fold_process_category_keeps process_category_holds)
  next
    case False
    with Cons show ?thesis by simp
  qed
qed

lemma fold_process_category_skip:
  "\<forall>category \<in> set cats. holds_identifier ident category s \<Longrightarrow>
   fold (process_category r ident) cats s = s"
  by (induction cats) (simp_all add: process_category_skip)

lemma holds_identifier_warnings:
  "holds_identifier ident category (s\<lparr>warnings := w\<rparr>) = holds_identifier ident category s"
  by (simp add: holds_identifier_def)

lemma Aggregator_process_record_keeps_holds:
  "holds_identifier ident category s \<Longrightarrow>
   holds_identifier ident category (Aggregator_process_record r' s)"
  by (auto simp: Aggregator_process_record_def fold_process_category_keeps
      holds_identifier_warnings split: option.splits)

lemma Aggregator_process_record_keeps_seen:
  "seen r s \<Longrightarrow> seen r (Aggregator_process_record r' s)"
  by (auto simp: seen_def list_all_iff Aggregator_process_record_keeps_holds
      split: option.splits)

lemma Aggregator_process_record_seen: "seen r (Aggregator_process_record r s)"
  by (auto simp: seen_def list_all_iff Aggregator_process_record_def malformed_def
      fold_process_category_holds split: option.splits)

lemma Aggregator_process_seen:
  "r \<in> set records \<or> seen r s \<Longrightarrow> seen r (Aggregator_process records s)"
  unfolding Aggregator_process_def
proof (induction records arbitrary: s)
  case Nil
  then show ?case by simp
next
  case (Cons x records)
  have "r \<in> set records \<or> seen r (Aggregator_process_record x s)"
    using Cons.prems Aggregator_process_record_seen Aggregator_process_record_keeps_seen
    by auto
  from Cons.IH[OF this] show ?case by simp
qed

lemma Aggregator_process_record_again:
  "seen r s \<Longrightarrow>
   Aggregator_process_record r s
     = (if malformed r then s\<lparr>warnings := warnings s @ [MalformedRecord r]\<rparr> else s)"
  by (auto simp: seen_def list_all_iff Aggregator_process_record_def malformed_def
      fold_process_category_skip split: option.splits)

lemma Aggregator_process_snoc:
  "Aggregator_process (records @ [r]) s
     = Aggregator_process_record r (Aggregator_process records s)"
  by (simp add: Aggregator_process_def)

text \<open>
  C3. On the Category Aggregator of the specification: a record whose identifier a
  category already holds contributes nothing to that category; processing a record
  twice in a row leaves the category data as processing it once does; and processing
  again, at the end of a batch, a record that the batch holds leaves the category
  data as it was.
\<close>

theorem Aggregator_process_no_double_counting:
  "(holds_identifier ident category s \<longrightarrow> process_category r ident category s = s)
   \<and> category_data (Aggregator_process_record r (Aggregator_process_record r s))
       = category_data (Aggregator_process_record r s)
   \<and> (r \<in> set records \<longrightarrow>
        category_data (Aggregator_process (records @ [r]) s)
          = category_data (Aggregator_process records s))"
proof (intro conjI impI)
  assume "holds_identifier ident category s"
  then show "process_category r ident category s = s" by (rule process_category_skip)
next
  show "category_data (Aggregator_process_record r (Aggregator_process_record r s))
       = category_data (Aggregator_process_record r s)"
    using Aggregator_process_record_again[OF Aggregator_process_record_seen[of r s]]
    by simp
next
  assume "r \<in> set records"
  then have "seen r (Aggregator_process records s)"
    by (simp add: Aggregator_process_seen)
  from Aggregator_process_record_again[OF this]
  show "category_data (Aggregator_process (records @ [r]) s)
          = category_data (Aggregator_process records s)"
    by (simp add: Aggregator_process_snoc)
qed

theorem Aggregator_process_no_double_counting_witness:
  "category_data
     (Aggregator_process (scenario_data @ [hd scenario_data]) (empty_orchestrator []))
   = category_data (Aggregator_process scenario_data (empty_orchestrator []))"
proof -
  have m: "hd scenario_data \<in> set scenario_data"
    by (simp add: scenario_data_def)
  note t = Aggregator_process_no_double_counting
    [where r = "hd scenario_data" and records = scenario_data and s = "empty_orchestrator []"]
  from t[THEN conjunct2, THEN conjunct2] m show ?thesis by (rule mp)
qed

lemma process_category_warnings:
  "process_category r ident category (s\<lparr>warnings := w\<rparr>)
     = (process_category r ident category s)\<lparr>warnings := w\<rparr>"
  by (simp add: process_category_def Let_def)

lemma fold_process_category_warnings:
  "fold (process_category r ident) cats (s\<lparr>warnings := w\<rparr>)
     = (fold (process_category r ident) cats s)\<lparr>warnings := w\<rparr>"
  by (induction cats arbitrary: s) (simp_all add: process_category_warnings)

lemma Aggregator_process_record_warnings:
  "\<exists>w'. Aggregator_process_record r (s\<lparr>warnings := w\<rparr>)
          = (Aggregator_process_record r s)\<lparr>warnings := w'\<rparr>"
proof (cases "malformed r")
  case True
  then have "Aggregator_process_record r (s\<lparr>warnings := w\<rparr>)
      = (Aggregator_process_record r s)\<lparr>warnings := w @ [MalformedRecord r]\<rparr>"
    by (auto simp: Aggregator_process_record_def malformed_def split: option.splits)
  then show ?thesis by (rule exI)
next
  case False
  then have "Aggregator_process_record r (s\<lparr>warnings := w\<rparr>)
      = (Aggregator_process_record r s)\<lparr>warnings := w\<rparr>"
    by (auto simp: Aggregator_process_record_def malformed_def fold_process_category_warnings
        split: option.splits)
  then show ?thesis by (rule exI)
qed

lemma Aggregator_process_warnings:
  "\<exists>w'. Aggregator_process records (s\<lparr>warnings := w\<rparr>)
          = (Aggregator_process records s)\<lparr>warnings := w'\<rparr>"
proof (induction records arbitrary: s w)
  case Nil
  have "Aggregator_process [] (s\<lparr>warnings := w\<rparr>) = (Aggregator_process [] s)\<lparr>warnings := w\<rparr>"
    by (simp add: Aggregator_process_def)
  then show ?case by (rule exI)
next
  case (Cons x records)
  obtain w1 where w1: "Aggregator_process_record x (s\<lparr>warnings := w\<rparr>)
      = (Aggregator_process_record x s)\<lparr>warnings := w1\<rparr>"
    using Aggregator_process_record_warnings by blast
  obtain w2 where w2: "Aggregator_process records ((Aggregator_process_record x s)\<lparr>warnings := w1\<rparr>)
      = (Aggregator_process records (Aggregator_process_record x s))\<lparr>warnings := w2\<rparr>"
    using Cons by blast
  have a: "Aggregator_process (x # records) (s\<lparr>warnings := w\<rparr>)
      = Aggregator_process records (Aggregator_process_record x (s\<lparr>warnings := w\<rparr>))"
    by (simp add: Aggregator_process_def)
  have b: "Aggregator_process (x # records) s
      = Aggregator_process records (Aggregator_process_record x s)"
    by (simp add: Aggregator_process_def)
  have "Aggregator_process (x # records) (s\<lparr>warnings := w\<rparr>)
      = (Aggregator_process (x # records) s)\<lparr>warnings := w2\<rparr>"
    unfolding a b w1 w2 ..
  then show ?case by (rule exI)
qed

lemma Aggregator_process_record_malformed:
  "malformed r \<Longrightarrow>
   Aggregator_process_record r s = s\<lparr>warnings := warnings s @ [MalformedRecord r]\<rparr>"
  by (auto simp: Aggregator_process_record_def malformed_def split: option.splits)

lemma warnings_process_category:
  "warnings (fold (process_category r ident) cats s) = warnings s"
  by (induction cats arbitrary: s) (simp_all add: process_category_def Let_def)

lemma warnings_grow_record:
  "set (warnings s) \<subseteq> set (warnings (Aggregator_process_record r s))"
  by (auto simp: Aggregator_process_record_def warnings_process_category split: option.splits)

lemma warnings_grow:
  "set (warnings s) \<subseteq> set (warnings (Aggregator_process records s))"
  unfolding Aggregator_process_def
proof (induction records arbitrary: s)
  case Nil
  then show ?case by simp
next
  case (Cons x records)
  from warnings_grow_record[of s x] Cons.IH[of "Aggregator_process_record x s"]
  show ?case by auto
qed

lemma Aggregator_process_append:
  "Aggregator_process (xs @ ys) s = Aggregator_process ys (Aggregator_process xs s)"
  by (simp add: Aggregator_process_def)

text \<open>
  C5. On the Category Aggregator of the specification: a record without an
  identifier, without category tags (the empty list included) or without authors
  changes neither the category data nor the faculty statistics and is reported to the
  warning collector as a MalformedRecord; the batch that holds it is processed to
  the end, with the aggregates that the batch without it gives and with the
  diagnostic among the warnings. The processing returns a state for every batch: it
  has no way to abort.
\<close>

theorem malformed_record_excluded:
  assumes "malformed r"
  shows "category_data (Aggregator_process_record r s) = category_data s
         \<and> faculty_stats (Aggregator_process_record r s) = faculty_stats s
         \<and> warnings (Aggregator_process_record r s) = warnings s @ [MalformedRecord r]
         \<and> category_data (Aggregator_process (before @ [r] @ after) s)
             = category_data (Aggregator_process (before @ after) s)
         \<and> faculty_stats (Aggregator_process (before @ [r] @ after) s)
             = faculty_stats (Aggregator_process (before @ after) s)
         \<and> MalformedRecord r \<in> set (warnings (Aggregator_process (before @ [r] @ after) s))"
proof -
  let ?b = "Aggregator_process before s"
  let ?br = "Aggregator_process_record r ?b"
  have one: "Aggregator_process_record r s = s\<lparr>warnings := warnings s @ [MalformedRecord r]\<rparr>"
    using assms by (rule Aggregator_process_record_malformed)
  have br: "?br = ?b\<lparr>warnings := warnings ?b @ [MalformedRecord r]\<rparr>"
    using assms by (rule Aggregator_process_record_malformed)
  have split: "Aggregator_process (before @ [r] @ after) s = Aggregator_process after ?br"
    by (simp add: Aggregator_process_def)
  obtain w' where w': "Aggregator_process after (?b\<lparr>warnings := warnings ?b @ [MalformedRecord r]\<rparr>)
      = (Aggregator_process after ?b)\<lparr>warnings := w'\<rparr>"
    using Aggregator_process_warnings by blast
  have rhs: "Aggregator_process (before @ after) s = Aggregator_process after ?b"
    by (rule Aggregator_process_append)
  have lhs: "Aggregator_process (before @ [r] @ after) s
      = (Aggregator_process after ?b)\<lparr>warnings := w'\<rparr>"
    unfolding split by (subst br) (rule w')
  have cd: "category_data (Aggregator_process (before @ [r] @ after) s)
             = category_data (Aggregator_process (before @ after) s)"
    unfolding lhs rhs by simp
  have fs: "faculty_stats (Aggregator_process (before @ [r] @ after) s)
             = faculty_stats (Aggregator_process (before @ after) s)"
    unfolding lhs rhs by simp
  have "MalformedRecord r \<in> set (warnings ?br)"
    by (subst br) simp
  with warnings_grow[of ?br after]
  have "MalformedRecord r \<in> set (warnings (Aggregator_process after ?br))"
    by (rule subsetD)
  then have w: "MalformedRecord r \<in> set (warnings (Aggregator_process (before @ [r] @ after) s))"
    unfolding split .
  have o1: "category_data (Aggregator_process_record r s) = category_data s"
    by (subst one) simp
  have o2: "faculty_stats (Aggregator_process_record r s) = faculty_stats s"
    by (subst one) simp
  have o3: "warnings (Aggregator_process_record r s) = warnings s @ [MalformedRecord r]"
    by (subst one) simp
  from o1 o2 o3 cd fs w show ?thesis by (intro conjI)
qed

theorem malformed_record_excluded_witness:
  "category_data
     (Aggregator_process
        ([hd scenario_data]
         @ [\<lparr>record_identifier = Some ''a3'', title = [], citation_count = 1,
              authors = [''A. Jones''], department_affiliations = [], categories = [],
              publication_year = 2024\<rparr>]
         @ tl scenario_data)
        (empty_orchestrator []))
   = category_data
       (Aggregator_process ([hd scenario_data] @ tl scenario_data) (empty_orchestrator []))"
proof -
  let ?r = "\<lparr>record_identifier = Some ''a3'', title = [], citation_count = 1,
              authors = [''A. Jones''], department_affiliations = [], categories = [],
              publication_year = 2024\<rparr>"
  have "malformed ?r" by (simp add: malformed_def)
  from malformed_record_excluded[OF this, where s = "empty_orchestrator []"
      and before = "[hd scenario_data]" and after = "tl scenario_data"]
  show ?thesis by (rule conjunct2[THEN conjunct2, THEN conjunct2, THEN conjunct1])
qed


end
